theory Spec2Isabelle
  imports Main
begin

section \<open>Python string primitives used by the generator\<close>

text \<open>
  Python \<open>str\<close> values are modelled as \<open>string\<close>; character classification
  (\<open>isspace\<close>, \<open>lower\<close>, the regular expression classes) follows Python on the ASCII
  range, and characters outside ASCII are neither whitespace, nor word characters, nor
  changed by \<open>lower\<close>. The theorems about every string below use no fact about which
  characters are in which class; the classes matter for the evaluations on given texts,
  which are ASCII.
\<close>

definition nl :: char where
  "nl = CHR 0x0A"

definition is_space :: "char \<Rightarrow> bool" where
  "is_space c = (c \<in> set [CHR '' '', CHR 0x09, CHR 0x0A, CHR 0x0B, CHR 0x0C, CHR 0x0D,
                            CHR 0x1C, CHR 0x1D, CHR 0x1E, CHR 0x1F])"

definition is_word :: "char \<Rightarrow> bool" where
  "is_word c = (let n = (of_char c :: nat) in
      (48 \<le> n \<and> n \<le> 57) \<or> (65 \<le> n \<and> n \<le> 90) \<or> (97 \<le> n \<and> n \<le> 122) \<or> n = 95)"

text \<open>\<open>s.strip()\<close>\<close>

definition strip :: "string \<Rightarrow> string" where
  "strip s = rev (dropWhile is_space (rev (dropWhile is_space s)))"

text \<open>\<open>s.lower()\<close>\<close>

definition lower_char :: "char \<Rightarrow> char" where
  "lower_char c = (let n = (of_char c :: nat) in
      if 65 \<le> n \<and> n \<le> 90 then char_of (n + 32) else c)"

definition lower :: "string \<Rightarrow> string" where
  "lower s = map lower_char s"

text \<open>\<open>s.startswith(p)\<close>, \<open>s.endswith(p)\<close>, \<open>sub in s\<close>, \<open>s.count(c)\<close>\<close>

definition startswith :: "string \<Rightarrow> string \<Rightarrow> bool" where
  "startswith s p = (take (length p) s = p)"

definition endswith :: "string \<Rightarrow> string \<Rightarrow> bool" where
  "endswith s p = startswith (rev s) (rev p)"

fun py_in :: "string \<Rightarrow> string \<Rightarrow> bool" where
  "py_in sub [] = (sub = [])"
| "py_in sub (c # cs) = (startswith (c # cs) sub \<or> py_in sub cs)"

definition count :: "string \<Rightarrow> char \<Rightarrow> nat" where
  "count s c = length (filter (\<lambda>x. x = c) s)"

text \<open>\<open>s.find(sub)\<close>: the index of the first occurrence, \<open>None\<close> for Python's \<open>-1\<close>.\<close>

fun find_str :: "string \<Rightarrow> string \<Rightarrow> nat option" where
  "find_str [] sub = (if sub = [] then Some 0 else None)"
| "find_str (c # cs) sub =
     (if startswith (c # cs) sub then Some 0 else map_option Suc (find_str cs sub))"

text \<open>\<open>s[:i]\<close> where \<open>i\<close> is the result of \<open>find\<close>: the slice \<open>s[:-1]\<close> drops the last
  character.\<close>

definition slice_to :: "string \<Rightarrow> nat option \<Rightarrow> string" where
  "slice_to s i = (case i of Some k \<Rightarrow> take k s | None \<Rightarrow> butlast s)"

text \<open>\<open>s.split(c)\<close> for a one-character separator: never the empty list.\<close>

fun split_on :: "char \<Rightarrow> string \<Rightarrow> string list" where
  "split_on c [] = [[]]"
| "split_on c (x # xs) =
     (if x = c then [] # split_on c xs
      else (case split_on c xs of [] \<Rightarrow> [[x]] | l # ls \<Rightarrow> (x # l) # ls))"

text \<open>\<open>s.replace(old, new)\<close>: every non-overlapping occurrence, left to right. For the
  empty \<open>old\<close> Python puts \<open>new\<close> before every character and at the end.\<close>

function replace :: "string \<Rightarrow> string \<Rightarrow> string \<Rightarrow> string" where
  "replace [] old new = (if old = [] then new else [])"
| "replace (c # cs) old new =
     (if old = [] then new @ c # replace cs old new
      else if startswith (c # cs) old then new @ replace (drop (length old) (c # cs)) old new
      else c # replace cs old new)"
  by pat_completeness auto
termination
  by (relation "measure (\<lambda>(s, old, new). length s)") auto

text \<open>\<open>str(n)\<close> for a natural number.\<close>

definition digit_char :: "nat \<Rightarrow> char" where
  "digit_char d = char_of (48 + d)"

function str_nat :: "nat \<Rightarrow> string" where
  "str_nat n = (if n < 10 then [digit_char n] else str_nat (n div 10) @ [digit_char (n mod 10)])"
  by pat_completeness auto
termination
  by (relation "measure id") auto

text \<open>\<open>list(dict.fromkeys(xs))\<close>: every element once, at the place of its first occurrence.\<close>

fun dict_fromkeys :: "'a list \<Rightarrow> 'a list" where
  "dict_fromkeys [] = []"
| "dict_fromkeys (x # xs) = x # dict_fromkeys (removeAll x xs)"

text \<open>\<open>os.path.basename\<close> on POSIX: what follows the last slash.\<close>

definition basename :: "string \<Rightarrow> string" where
  "basename p = rev (takeWhile (\<lambda>c. c \<noteq> CHR ''/'') (rev p))"

section \<open>A backtracking matcher for the patterns of module \<open>re\<close> that the generator uses\<close>

datatype cclass = CChar char | CAny | CDot | CSpace | CNonSpace | CWord
  | COneOf "char list" | CNoneOf "char list"

fun cmatch :: "cclass \<Rightarrow> char \<Rightarrow> bool" where
  "cmatch (CChar d) c = (c = d)"
| "cmatch CAny c = True"
| "cmatch CDot c = (c \<noteq> nl)"
| "cmatch CSpace c = is_space c"
| "cmatch CNonSpace c = (\<not> is_space c)"
| "cmatch CWord c = is_word c"
| "cmatch (COneOf ds) c = (c \<in> set ds)"
| "cmatch (CNoneOf ds) c = (c \<notin> set ds)"

text \<open>
  \<open>Atom\<close> is one character of a class (\<open>CAny\<close> is the dot under \<open>re.DOTALL\<close>,
  \<open>CDot\<close> the dot without it), \<open>Star\<close> the greedy and \<open>LazyStar\<close> the non-greedy
  repetition, \<open>Group i\<close> the i-th capturing group, \<open>Ahead\<close> the lookahead \<open>(?=...)\<close>
  and \<open>EndS\<close> the anchor \<open>$\<close> without \<open>re.MULTILINE\<close>: the end of the text or the
  position before a final newline.
\<close>

datatype regex = Atom cclass | Eps | Seq regex regex | Alt regex regex
  | Star regex | LazyStar regex | Group nat regex | Ahead regex | EndS

type_synonym caps = "(nat \<times> string) list"

text \<open>
  \<open>ms r s g\<close> lists every way \<open>r\<close> matches a prefix of \<open>s\<close>, as the rest of the text
  and the groups captured, in the order in which a backtracking matcher tries them: the
  head of the list is the match \<open>re\<close> reports.
\<close>

function (sequential) ms :: "regex \<Rightarrow> string \<Rightarrow> caps \<Rightarrow> (string \<times> caps) list" where
  "ms (Atom c) s g = (case s of [] \<Rightarrow> [] | x # xs \<Rightarrow> if cmatch c x then [(xs, g)] else [])"
| "ms Eps s g = [(s, g)]"
| "ms (Seq a b) s g = concat (map (\<lambda>(s', g'). ms b s' g') (ms a s g))"
| "ms (Alt a b) s g = ms a s g @ ms b s g"
| "ms (Star a) s g =
     concat (map (\<lambda>(s', g'). if length s' < length s then ms (Star a) s' g' else []) (ms a s g))
     @ [(s, g)]"
| "ms (LazyStar a) s g =
     (s, g) # concat (map (\<lambda>(s', g'). if length s' < length s then ms (LazyStar a) s' g' else [])
                       (ms a s g))"
| "ms (Group i a) s g =
     map (\<lambda>(s', g'). (s', (i, take (length s - length s') s) # g')) (ms a s g)"
| "ms (Ahead a) s g = (case ms a s g of [] \<Rightarrow> [] | (s', g') # _ \<Rightarrow> [(s, g')])"
| "ms EndS s g = (if s = [] \<or> s = [nl] then [(s, g)] else [])"
  by pat_completeness auto
termination
  by (relation "measures [\<lambda>(r, s, g). size r, \<lambda>(r, s, g). length s]") auto

definition Str :: "string \<Rightarrow> regex" where
  "Str cs = foldr (\<lambda>c r. Seq (Atom (CChar c)) r) cs Eps"

definition Seqs :: "regex list \<Rightarrow> regex" where
  "Seqs rs = foldr Seq rs Eps"

definition Plus :: "regex \<Rightarrow> regex" where
  "Plus r = Seq r (Star r)"

definition match_at :: "regex \<Rightarrow> string \<Rightarrow> (string \<times> caps) option" where
  "match_at r s = (case ms r s [] of [] \<Rightarrow> None | m # _ \<Rightarrow> Some m)"

definition group :: "caps \<Rightarrow> nat \<Rightarrow> string" where
  "group g i = (case map_of g i of Some v \<Rightarrow> v | None \<Rightarrow> [])"

text \<open>\<open>re.search\<close>: the leftmost match.\<close>

fun search :: "regex \<Rightarrow> string \<Rightarrow> caps option" where
  "search r [] = map_option snd (match_at r [])"
| "search r (c # cs) =
     (case match_at r (c # cs) of Some (_, g) \<Rightarrow> Some g | None \<Rightarrow> search r cs)"

text \<open>
  \<open>re.findall\<close>: the non-overlapping matches from left to right, each as its groups.
  Every pattern of the generator starts with a literal, so that no match is empty; after an
  empty match the scan moves on by one character.
\<close>

function findall :: "regex \<Rightarrow> string \<Rightarrow> caps list" where
  "findall r s =
     (case match_at r s of
        Some (s', g) \<Rightarrow>
          if length s' < length s then g # findall r s'
          else g # (case s of [] \<Rightarrow> [] | _ # t \<Rightarrow> findall r t)
      | None \<Rightarrow> (case s of [] \<Rightarrow> [] | _ # t \<Rightarrow> findall r t))"
  by pat_completeness auto
termination
  by (relation "measure (\<lambda>(r, s). length s)") auto

text \<open>With one group \<open>findall\<close> gives the group, with two groups the pair.\<close>

definition findall1 :: "regex \<Rightarrow> string \<Rightarrow> string list" where
  "findall1 r s = map (\<lambda>g. group g 1) (findall r s)"

definition findall2 :: "regex \<Rightarrow> string \<Rightarrow> (string \<times> string) list" where
  "findall2 r s = map (\<lambda>g. (group g 1, group g 2)) (findall r s)"

section \<open>The output directory and the standard output\<close>

text \<open>
  The generator writes below the module variable \<open>TEST_OUTPUT_DIR\<close>, which is \<open>None\<close>
  until \<open>_setup_run_directories\<close> has run (the constructor skips it when the module is
  only imported). The run is modelled by what the calls can observe:
  \<^item> whether \<open>os.makedirs(TEST_OUTPUT_DIR, exist_ok=True)\<close> succeeds;
  \<^item> \<open>opens\<close>: the path of the file that \<open>open(os.path.join(TEST_OUTPUT_DIR, filename), 'w')\<close>
    opens, \<open>None\<close> when it raises; two file names can open one path (\<open>a.spec.ts\<close> and
    \<open>./a.spec.ts\<close>);
  \<^item> \<open>write_fails\<close>: \<open>None\<close> when \<open>f.write(content)\<close> succeeds, else what the failed write
    leaves in the file, which \<open>open\<close> has emptied (nothing, when the content cannot be
    encoded as UTF-8);
  \<^item> \<open>files\<close>: the contents of the files, by path;
  \<^item> \<open>stdout_fixed\<close>: printing the fixed part of a message succeeds: the stream takes the
    ASCII characters and the emoji of the messages;
  \<^item> \<open>stdout_char\<close>: the other characters that the stream can encode (a UTF-8 stream
    encodes every character but a lone surrogate).
  \<open>written\<close> records the saves that succeeded, in order, by name and content.
\<close>

datatype error = TypeError | OSError | UnicodeEncodeError

record env =
  test_output_dir :: "string option"
  can_mkdir :: bool
  opens :: "string \<Rightarrow> string option"
  write_fails :: "string \<Rightarrow> string option"
  files :: "string \<rightharpoonup> string"
  written :: "(string \<times> string) list"
  stdout_fixed :: bool
  stdout_char :: "char \<Rightarrow> bool"

text \<open>A call that can raise gives \<open>Inl\<close> the exception; \<open>then_do\<close> goes on after a call
  that did not raise.\<close>

definition then_do :: "error + 'a \<Rightarrow> ('a \<Rightarrow> error + 'b) \<Rightarrow> error + 'b" where
  "then_do m f = (case m of Inl err \<Rightarrow> Inl err | Inr x \<Rightarrow> f x)"

text \<open>
  \<open>print\<close> of a message: \<open>s\<close> holds the characters that the message takes from values
  (a text, a file name, a directory); the rest of the message is fixed. Where the message
  shows a value through \<open>repr\<close> (a list of names, the path in the text of an \<open>OSError\<close>),
  the characters of the value are taken as they are, which asks more of the stream than
  the escaped form.
\<close>

definition is_ascii :: "char \<Rightarrow> bool" where
  "is_ascii c = ((of_char c :: nat) < 128)"

definition can_print :: "env \<Rightarrow> string \<Rightarrow> bool" where
  "can_print e s = (stdout_fixed e \<and> list_all (\<lambda>c. is_ascii c \<or> stdout_char e c) s)"

definition py_print :: "env \<Rightarrow> string \<Rightarrow> error + unit" where
  "py_print e s = (if can_print e s then Inr () else Inl UnicodeEncodeError)"

text \<open>\<open>os.makedirs(TEST_OUTPUT_DIR, exist_ok=True)\<close>\<close>

definition makedirs :: "env \<Rightarrow> error + unit" where
  "makedirs e =
     (case test_output_dir e of
        None \<Rightarrow> Inl TypeError
      | Some d \<Rightarrow> if can_mkdir e then Inr () else Inl OSError)"

text \<open>
  \<open>_save_file\<close>. Whatever raises between \<open>try\<close> and \<open>return True\<close> (joining the path
  when the directory is \<open>None\<close>, opening, writing, one of the three messages) is caught, and
  the handler prints the file name and the exception before it returns \<open>False\<close>; an
  exception of that \<open>print\<close> leaves the function. A file that was opened has changed by
  then.
\<close>

definition save_file :: "env \<Rightarrow> string \<Rightarrow> string \<Rightarrow> error + (bool \<times> env)" where
  "save_file e filename content =
     (case test_output_dir e of
        None \<Rightarrow> then_do (py_print e filename) (\<lambda>_. Inr (False, e))
      | Some d \<Rightarrow>
         (case opens e filename of
            None \<Rightarrow> then_do (py_print e (filename @ d @ filename)) (\<lambda>_. Inr (False, e))
          | Some p \<Rightarrow>
             (case write_fails e content of
                Some left \<Rightarrow>
                  (let e1 = e\<lparr>files := (files e)(p \<mapsto> left)\<rparr>
                   in then_do (py_print e1 filename) (\<lambda>_. Inr (False, e1)))
              | None \<Rightarrow>
                  (let e1 = e\<lparr>files := (files e)(p \<mapsto> content)\<rparr>
                   in if can_print e1 (filename @ filename @ take 100 content @ d @ filename)
                      then Inr (True, e1\<lparr>written := written e1 @ [(filename, content)]\<rparr>)
                      else then_do (py_print e1 filename) (\<lambda>_. Inr (False, e1))))))"

section \<open>The resilient artifact extractor\<close>

text \<open>
  The loop that ends every strategy: strip the content, skip it when empty, save it, and
  when saving succeeded print the file name and record it.
\<close>

fun save_matches :: "env \<Rightarrow> (string \<times> string) list \<Rightarrow> error + (string list \<times> env)" where
  "save_matches e [] = Inr ([], e)"
| "save_matches e ((filename, content) # rest) =
     (let content = strip content in
      if content \<noteq> [] then
        then_do (save_file e filename content) (\<lambda>(ok, e').
          if ok then
            then_do (py_print e' filename) (\<lambda>_.
            then_do (save_matches e' rest) (\<lambda>(saved, e''). Inr (filename # saved, e'')))
          else save_matches e' rest)
      else save_matches e rest)"

definition spec_ts :: regex where
  "spec_ts = Str ''.spec.ts''"

definition fence :: regex where
  "fence = Str [CHR 0x60, CHR 0x60, CHR 0x60]"

text \<open>\<open>FILENAME:\s*(\S+\.spec\.ts)\s*\n(.*?)(?=FILENAME:|$)\<close> with \<open>re.DOTALL\<close>\<close>

definition filename_pattern :: regex where
  "filename_pattern = Seqs
     [Str ''FILENAME:'', Star (Atom CSpace),
      Group 1 (Seq (Plus (Atom CNonSpace)) spec_ts),
      Star (Atom CSpace), Atom (CChar nl),
      Group 2 (LazyStar (Atom CAny)),
      Ahead (Alt (Str ''FILENAME:'') EndS)]"

text \<open>\<open>####\s*(\S+\.spec\.ts)\s*\n```typescript\s*\n(.*?)\n```\<close> with \<open>re.DOTALL\<close>\<close>

definition hash_pattern :: regex where
  "hash_pattern = Seqs
     [Str ''####'', Star (Atom CSpace),
      Group 1 (Seq (Plus (Atom CNonSpace)) spec_ts),
      Star (Atom CSpace), Atom (CChar nl),
      fence, Str ''typescript'', Star (Atom CSpace), Atom (CChar nl),
      Group 2 (LazyStar (Atom CAny)),
      Atom (CChar nl), fence]"

text \<open>\<open>(\w+\.spec\.ts):\s*\n```typescript\s*\n(.*?)\n```\<close> with \<open>re.DOTALL\<close>\<close>

definition markdown_pattern :: regex where
  "markdown_pattern = Seqs
     [Group 1 (Seq (Plus (Atom CWord)) spec_ts), Str '':'',
      Star (Atom CSpace), Atom (CChar nl),
      fence, Str ''typescript'', Star (Atom CSpace), Atom (CChar nl),
      Group 2 (LazyStar (Atom CAny)),
      Atom (CChar nl), fence]"

text \<open>\<open>```(?:typescript|javascript|ts|js)\s*\n(.*?)\n```\<close> with \<open>re.DOTALL\<close>\<close>

definition block_pattern :: regex where
  "block_pattern = Seqs
     [fence,
      Alt (Str ''typescript'') (Alt (Str ''javascript'') (Alt (Str ''ts'') (Str ''js''))),
      Star (Atom CSpace), Atom (CChar nl),
      Group 1 (LazyStar (Atom CAny)),
      Atom (CChar nl), fence]"

text \<open>\<open>(\w+\.spec\.ts)\<close>\<close>

definition name_pattern :: regex where
  "name_pattern = Group 1 (Seq (Plus (Atom CWord)) spec_ts)"

definition parse_filename_format :: "env \<Rightarrow> string \<Rightarrow> error + (string list \<times> env)" where
  "parse_filename_format e response_text =
     save_matches e (findall2 filename_pattern response_text)"

definition parse_hash_format :: "env \<Rightarrow> string \<Rightarrow> error + (string list \<times> env)" where
  "parse_hash_format e response_text =
     save_matches e (findall2 hash_pattern response_text)"

text \<open>
  Strategy 2 of \<open>_parse_markdown_format\<close>, for the block of index \<open>i\<close>: the last ten lines
  before the first occurrence of the block's content are read backwards for a line that
  holds a name; without one the name is \<open>test_<i+1>.spec.ts\<close>.
\<close>

fun name_in_lines :: "string list \<Rightarrow> string option" where
  "name_in_lines [] = None"
| "name_in_lines (line # rest) =
     (if py_in ''.spec.ts'' line then
        (case search name_pattern line of
           Some g \<Rightarrow> Some (group g 1)
         | None \<Rightarrow> name_in_lines rest)
      else name_in_lines rest)"

definition last_lines :: "nat \<Rightarrow> 'a list \<Rightarrow> 'a list" where
  "last_lines n xs = drop (length xs - n) xs"

definition block_filename :: "string \<Rightarrow> nat \<Rightarrow> string \<Rightarrow> string" where
  "block_filename response_text i block_content =
     (let lines_before = split_on nl (slice_to response_text (find_str response_text block_content))
      in case name_in_lines (rev (last_lines 10 lines_before)) of
           Some filename \<Rightarrow> if filename \<noteq> [] then filename
                            else ''test_'' @ str_nat (i + 1) @ ''.spec.ts''
         | None \<Rightarrow> ''test_'' @ str_nat (i + 1) @ ''.spec.ts'')"

definition context_matches :: "string \<Rightarrow> (string \<times> string) list" where
  "context_matches response_text =
     map (\<lambda>(i, block_content). (block_filename response_text i block_content, block_content))
       (enumerate 0 (findall1 block_pattern response_text))"

text \<open>
  \<open>_parse_markdown_format\<close>: Strategy 2 runs when Strategy 1 of this function has saved
  nothing, which is what its local list \<open>files_saved\<close> holds at that point.
\<close>

definition parse_markdown_format :: "env \<Rightarrow> string \<Rightarrow> error + (string list \<times> env)" where
  "parse_markdown_format e response_text =
     then_do (save_matches e (findall2 markdown_pattern response_text)) (\<lambda>(files_saved, e1).
       if files_saved = [] then save_matches e1 (context_matches response_text)
       else Inr (files_saved, e1))"

text \<open>\<open>_parse_by_content_mapping\<close>: the expected file names with their indicators, in the
  order of the dictionary.\<close>

definition expected_files :: "(string \<times> string list) list" where
  "expected_files =
     [(''visual.spec.ts'', [''visual'', ''responsive'', ''viewport'', ''theme'', ''dark'',
                            ''light'', ''mobile'', ''desktop'']),
      (''flow.spec.ts'', [''flow'', ''login'', ''navigation'', ''user'', ''authentication'',
                          ''wizard'', ''form'']),
      (''component.spec.ts'', [''component'', ''interactive'', ''button'', ''modal'',
                               ''dropdown'', ''form'', ''input'']),
      (''accessibility.spec.ts'', [''accessibility'', ''aria'', ''keyboard'', ''focus'',
                                   ''screen reader'', ''tab''])]"

definition score :: "string \<Rightarrow> string list \<Rightarrow> nat" where
  "score content_lower indicators =
     length (filter (\<lambda>indicator. py_in indicator content_lower) indicators)"

fun best_match :: "string \<Rightarrow> (string \<times> string list) list \<Rightarrow> string option \<times> nat
    \<Rightarrow> string option" where
  "best_match content_lower [] (best, best_score) = best"
| "best_match content_lower ((filename, indicators) # rest) (best, best_score) =
     (if score content_lower indicators > best_score
      then best_match content_lower rest (Some filename, score content_lower indicators)
      else best_match content_lower rest (best, best_score))"

definition mapped_filename :: "nat \<Rightarrow> string \<Rightarrow> string" where
  "mapped_filename i block_content =
     (case best_match (lower block_content) expected_files (None, 0) of
        Some filename \<Rightarrow> filename
      | None \<Rightarrow> ''test_'' @ str_nat (i + 1) @ ''.spec.ts'')"

definition content_matches :: "string \<Rightarrow> (string \<times> string) list" where
  "content_matches response_text =
     map (\<lambda>(i, block_content). (mapped_filename i block_content, block_content))
       (enumerate 0 (findall1 block_pattern response_text))"

definition parse_by_content_mapping :: "env \<Rightarrow> string \<Rightarrow> error + (string list \<times> env)" where
  "parse_by_content_mapping e response_text =
     save_matches e (content_matches response_text)"

text \<open>
  \<open>_parse_test_files\<close>: the cascade, with the messages that it prints outside any handler:
  the first 500 characters of the text before anything else, the list of the saved names at
  the end, and the first 1000 characters of the text when no file was saved.
\<close>

definition parse_test_files :: "env \<Rightarrow> string \<Rightarrow> error + (string list \<times> env)" where
  "parse_test_files e response_text =
     then_do (py_print e []) (\<lambda>_.
     then_do (py_print e (take 500 response_text)) (\<lambda>_.
     then_do (makedirs e) (\<lambda>_.
     then_do (py_print e []) (\<lambda>_.
     then_do (parse_filename_format e response_text) (\<lambda>(s1, e1).
     then_do (parse_hash_format e1 response_text) (\<lambda>(s2, e2).
     then_do (parse_markdown_format e2 response_text) (\<lambda>(s3, e3).
     then_do (if length (s1 @ s2 @ s3) < 4
              then then_do (parse_by_content_mapping e3 response_text)
                     (\<lambda>(s4, e4). Inr (s1 @ s2 @ s3 @ s4, e4))
              else Inr (s1 @ s2 @ s3, e3)) (\<lambda>(files_saved, e4).
     let files_saved = dict_fromkeys files_saved in
     then_do (py_print e4 []) (\<lambda>_.
     then_do (py_print e4 (concat files_saved)) (\<lambda>_.
     then_do (if files_saved = []
              then then_do (py_print e4 []) (\<lambda>_.
                   then_do (py_print e4 []) (\<lambda>_. py_print e4 (take 1000 response_text)))
              else Inr ()) (\<lambda>_.
     Inr (files_saved, e4))))))))))))"

section \<open>The role classifier\<close>

datatype role = Route | API | Component | Form | Other

text \<open>\<open>_classify_file_role\<close>: the content and the imports are parameters that no rule
  reads.\<close>

definition classify_file_role :: "string \<Rightarrow> string \<Rightarrow> string list \<Rightarrow> role" where
  "classify_file_role filename content imports =
     (let filename_lower = lower filename in
      if py_in ''route'' filename_lower \<or> py_in ''router'' filename_lower then Route
      else if py_in ''api'' filename_lower \<or> py_in ''service'' filename_lower then API
      else if list_ex (\<lambda>ext. py_in ext filename_lower) [''.tsx'', ''.jsx'', ''.vue'']
        then Component
      else if py_in ''form'' filename_lower \<or> py_in ''input'' filename_lower then Form
      else Other)"

section \<open>The feature synthesizer\<close>

record analysis =
  routes :: "string list"
  components :: "string list"
  pages :: "string list"
  forms :: "string list"
  api_endpoints :: "string list"
  user_flows :: "string list"
  features :: "string list"

text \<open>\<open>any(... for route in analysis["routes"] for page in analysis["pages"])\<close>: the
  condition is evaluated for every pair of a route and a page.\<close>

definition any_route_page :: "analysis \<Rightarrow> string \<Rightarrow> bool" where
  "any_route_page a kw =
     list_ex (\<lambda>route. list_ex (\<lambda>page. py_in kw (lower route) \<or> py_in kw (lower page)) (pages a))
       (routes a)"

text \<open>\<open>any(... for route in analysis["routes"])\<close> with one test for each keyword.\<close>

definition any_route :: "analysis \<Rightarrow> string list \<Rightarrow> bool" where
  "any_route a kws = list_ex (\<lambda>route. list_ex (\<lambda>kw. py_in kw (lower route)) kws) (routes a)"

definition feature :: "bool \<Rightarrow> string \<Rightarrow> string list" where
  "feature cond tag = (if cond then [tag] else [])"

definition extract_features :: "analysis \<Rightarrow> string list" where
  "extract_features a =
     feature (any_route_page a ''dashboard'') ''Dashboard Management''
     @ feature (any_route_page a ''create'') ''Create Operations''
     @ feature (any_route_page a ''edit'') ''Edit Operations''
     @ feature (any_route_page a ''delete'') ''Delete Operations''
     @ feature (any_route_page a ''project'') ''Project Management''
     @ feature (any_route a [''user'', ''profile'']) ''User Management''
     @ feature (any_route_page a ''content'') ''Content Management''
     @ feature (any_route a [''file'', ''upload'', ''download'']) ''File Management''
     @ feature (any_route a [''search'', ''filter'']) ''Search and Filtering''
     @ feature (any_route a [''setting'', ''config'']) ''Settings and Configuration''
     @ feature (any_route a [''cart'', ''checkout'', ''order'']) ''E-commerce''
     @ feature (any_route a [''blog'', ''post'', ''article'']) ''Blog/Content Publishing''
     @ feature (any_route a [''analytics'', ''report'', ''stats'']) ''Analytics and Reporting''
     @ feature (any_route a [''message'', ''chat'', ''notification'']) ''Communication''
     @ feature (any_route a [''calendar'', ''schedule'', ''event'']) ''Calendar/Scheduling''"

section \<open>The artifact validator\<close>

definition import_marker :: string where
  "import_marker = ''import { test, expect }''"

definition is_valid_test_content :: "string \<Rightarrow> bool" where
  "is_valid_test_content content =
     (if content = [] \<or> length (strip content) < 100 then False
      else
        (let has_imports = py_in import_marker content;
             has_tests = (py_in ''test('' content \<or> py_in ''test.describe'' content);
             has_closing = (count content CHR ''{'' = count content CHR ''}'')
         in has_imports \<and> has_tests \<and> has_closing))"

section \<open>The flow document parser\<close>

text \<open>A flow is the dictionary with the keys \<open>name\<close>, \<open>content\<close> and \<open>filename\<close>.\<close>

record flow =
  flow_name :: string
  flow_content :: string
  flow_filename :: string

text \<open>\<open>_generate_flow_filename\<close>\<close>

definition generate_flow_filename :: "string \<Rightarrow> string" where
  "generate_flow_filename nm =
     (let filename = lower nm;
          filename = replace filename '' '' ''_'';
          filename = replace filename '':'' [];
          filename = replace filename ''-'' ''_'';
          filename = replace filename ''__'' ''_''
      in filename @ ''.spec.ts'')"

definition heading :: string where
  "heading = ''## Flow:''"

text \<open>
  One round of the loop of \<open>_parse_user_flows\<close>, on the list \<open>flows\<close> and the
  variable \<open>current_flow\<close>. A dictionary with three keys is true in a condition, so
  \<open>if current_flow\<close> asks whether it is not \<open>None\<close>.
\<close>

definition flow_step :: "flow list \<times> flow option \<Rightarrow> string \<Rightarrow> flow list \<times> flow option" where
  "flow_step st line0 =
     (case st of (flows, current_flow) \<Rightarrow>
      let line = strip line0 in
      if startswith line heading then
        (let flows' = (case current_flow of Some c \<Rightarrow> flows @ [c] | None \<Rightarrow> flows);
             nm = strip (replace line heading [])
         in (flows', Some \<lparr>flow_name = nm, flow_content = line @ [nl],
                           flow_filename = generate_flow_filename nm\<rparr>))
      else
        (case current_flow of
           Some c \<Rightarrow> (flows, Some (c\<lparr>flow_content := flow_content c @ line @ [nl]\<rparr>))
         | None \<Rightarrow> (flows, None)))"

definition flow_finish :: "flow list \<times> flow option \<Rightarrow> flow list" where
  "flow_finish st =
     (case st of (flows, current_flow) \<Rightarrow>
        (case current_flow of Some c \<Rightarrow> flows @ [c] | None \<Rightarrow> flows))"

definition parse_user_flows :: "string \<Rightarrow> flow list" where
  "parse_user_flows user_flows_content =
     flow_finish (foldl flow_step ([], None) (split_on nl user_flows_content))"

section \<open>The reference extractor and the graph builder\<close>

definition quote :: regex where
  "quote = Atom (COneOf [CHR 0x27, CHR 0x22])"

definition quoted :: regex where
  "quoted = Seqs [quote, Group 1 (Plus (Atom (CNoneOf [CHR 0x27, CHR 0x22]))), quote]"

text \<open>The four patterns of \<open>_extract_imports\<close>, matched without \<open>re.DOTALL\<close>:
  \<open>import\s+.*?\s+from\s+['"]([^'"]+)['"]\<close>, \<open>import\s+['"]([^'"]+)['"]\<close>,
  \<open>require\(['"]([^'"]+)['"]\)\<close> and \<open>from\s+['"]([^'"]+)['"]\<close>.\<close>

definition import_patterns :: "regex list" where
  "import_patterns =
     [Seqs [Str ''import'', Plus (Atom CSpace), LazyStar (Atom CDot), Plus (Atom CSpace),
            Str ''from'', Plus (Atom CSpace), quoted],
      Seqs [Str ''import'', Plus (Atom CSpace), quoted],
      Seqs [Str ''require('', quoted, Str '')''],
      Seqs [Str ''from'', Plus (Atom CSpace), quoted]]"

text \<open>\<open>list(set(imports))\<close>: every path once; the order of a Python set is not fixed, and
  nothing below depends on it.\<close>

definition extract_imports :: "string \<Rightarrow> string list" where
  "extract_imports content = remdups (concat (map (\<lambda>p. findall1 p content) import_patterns))"

text \<open>The five patterns of \<open>_extract_routes\<close>: \<open>path=['"]([^'"]+)['"]\<close>, the same after
  \<open>to=\<close> and \<open>href=\<close>, \<open>Route.*path=['"]([^'"]+)['"]\<close> and
  \<open>navigate\(['"]([^'"]+)['"]\)\<close>.\<close>

definition route_patterns :: "regex list" where
  "route_patterns =
     [Seqs [Str ''path='', quoted],
      Seqs [Str ''to='', quoted],
      Seqs [Str ''href='', quoted],
      Seqs [Str ''Route'', Star (Atom CDot), Str ''path='', quoted],
      Seqs [Str ''navigate('', quoted, Str '')'']]"

definition extract_routes :: "string \<Rightarrow> string list" where
  "extract_routes content = remdups (concat (map (\<lambda>p. findall1 p content) route_patterns))"

text \<open>\<open>networkx.DiGraph\<close>: adding an edge adds its end points to the nodes.\<close>

record digraph =
  nodes :: "string list"
  edges :: "(string \<times> string) list"

definition add_node :: "digraph \<Rightarrow> string \<Rightarrow> digraph" where
  "add_node g n = (if n \<in> set (nodes g) then g else g\<lparr>nodes := nodes g @ [n]\<rparr>)"

definition add_edge :: "digraph \<Rightarrow> string \<Rightarrow> string \<Rightarrow> digraph" where
  "add_edge g u v =
     (let g' = add_node (add_node g u) v
      in if (u, v) \<in> set (edges g') then g' else g'\<lparr>edges := edges g' @ [(u, v)]\<rparr>)"

definition source_ext :: "string \<Rightarrow> bool" where
  "source_ext imp = list_ex (endswith imp) [''.tsx'', ''.jsx'', ''.ts'', ''.js'']"

text \<open>The inner loop of \<open>_build_dependency_graph\<close>, for one import of the file
  \<open>filename\<close>.\<close>

definition import_edge :: "string list \<Rightarrow> string \<Rightarrow> digraph \<Rightarrow> string \<Rightarrow> digraph" where
  "import_edge all_files filename g imp =
     (if source_ext imp then
        (let target_file = basename imp in
         if target_file \<in> set (map basename all_files) then add_edge g filename target_file
         else g)
      else g)"

type_synonym graph_state = "digraph \<times> (string \<rightharpoonup> role) \<times> (string \<rightharpoonup> string list)"

text \<open>
  The body of the outer loop. \<open>read p\<close> is the text of the file at path \<open>p\<close>, \<open>None\<close>
  when opening or decoding it raises: the handler then goes on with the next file, and
  nothing has been added for this one.
\<close>

definition process_file :: "(string \<rightharpoonup> string) \<Rightarrow> string list \<Rightarrow> graph_state \<Rightarrow> string
    \<Rightarrow> graph_state" where
  "process_file read all_files st file_path =
     (case st of (graph, file_roles, route_map) \<Rightarrow>
      let filename = basename file_path in
      case read file_path of
        None \<Rightarrow> (graph, file_roles, route_map)
      | Some content \<Rightarrow>
         (let imports = extract_imports content;
              graph = add_node graph filename;
              graph = foldl (import_edge all_files filename) graph imports;
              role = classify_file_role filename content imports;
              file_roles = file_roles(filename \<mapsto> role);
              found = extract_routes content;
              route_map = (if found \<noteq> [] then route_map(filename \<mapsto> found) else route_map)
          in (graph, file_roles, route_map)))"

definition build_dependency_graph :: "(string \<rightharpoonup> string) \<Rightarrow> string list \<Rightarrow> graph_state" where
  "build_dependency_graph read all_files =
     foldl (process_file read all_files)
       (\<lparr>nodes = [], edges = []\<rparr>, Map.empty, Map.empty) all_files"

section \<open>Notions used to state the properties\<close>

text \<open>The test of the loop of \<open>_parse_user_flows\<close> on an input line, and what the loop
  appends for a line and for a block of lines.\<close>

definition is_heading_line :: "string \<Rightarrow> bool" where
  "is_heading_line l = startswith (strip l) heading"

definition stripped_line :: "string \<Rightarrow> string" where
  "stripped_line l = strip l @ [nl]"

definition render :: "string list \<Rightarrow> string" where
  "render ls = concat (map stripped_line ls)"

text \<open>
  What the loop of a strategy does with its candidates, read off the run: \<open>attempts\<close> are the
  candidates that reach \<open>_save_file\<close> (the content stripped and not empty);
  \<open>disk_write\<close> is what one attempt leaves on the disk, by path; \<open>saved_ok\<close> says that
  \<open>_save_file\<close> returns \<open>True\<close> (the file opens, the write and the three messages succeed),
  and \<open>handled\<close> that it returns at all (if not \<open>True\<close>, the handler can print its
  message). \<open>after_saves\<close> is the run after a list of attempts, and \<open>cascade_run\<close> lists the
  attempts of \<open>_parse_test_files\<close> in the order of the cascade.
\<close>

definition attempts :: "(string \<times> string) list \<Rightarrow> (string \<times> string) list" where
  "attempts cands = filter (\<lambda>(n, c). c \<noteq> []) (map (\<lambda>(n, c). (n, strip c)) cands)"

definition disk_write :: "env \<Rightarrow> string \<times> string \<Rightarrow> (string \<times> string) list" where
  "disk_write e nc =
     (case nc of (n, c) \<Rightarrow>
        (case test_output_dir e of
           None \<Rightarrow> []
         | Some d \<Rightarrow>
            (case opens e n of
               None \<Rightarrow> []
             | Some p \<Rightarrow> [(p, case write_fails e c of None \<Rightarrow> c | Some left \<Rightarrow> left)])))"

definition saved_ok :: "env \<Rightarrow> string \<times> string \<Rightarrow> bool" where
  "saved_ok e nc =
     (case nc of (n, c) \<Rightarrow>
        (case test_output_dir e of
           None \<Rightarrow> False
         | Some d \<Rightarrow> opens e n \<noteq> None \<and> write_fails e c = None
                     \<and> can_print e (n @ take 100 c @ d)))"

definition handled :: "env \<Rightarrow> string \<times> string \<Rightarrow> bool" where
  "handled e nc =
     (case nc of (n, c) \<Rightarrow>
        saved_ok e nc \<or>
        (case test_output_dir e of
           None \<Rightarrow> can_print e n
         | Some d \<Rightarrow> (case opens e n of None \<Rightarrow> can_print e (n @ d) | Some p \<Rightarrow> can_print e n)))"

definition disk_writes :: "env \<Rightarrow> (string \<times> string) list \<Rightarrow> (string \<times> string) list" where
  "disk_writes e atts = concat (map (disk_write e) atts)"

definition saves :: "env \<Rightarrow> (string \<times> string) list \<Rightarrow> (string \<times> string) list" where
  "saves e atts = filter (saved_ok e) atts"

definition after_saves :: "env \<Rightarrow> (string \<times> string) list \<Rightarrow> env" where
  "after_saves e atts =
     e\<lparr>files := files e ++ map_of (rev (disk_writes e atts)),
       written := written e @ saves e atts\<rparr>"

definition cascade_run :: "env \<Rightarrow> string \<Rightarrow> (string \<times> string) list" where
  "cascade_run e t =
     (let a1 = attempts (findall2 filename_pattern t);
          a2 = attempts (findall2 hash_pattern t);
          a3 = attempts (findall2 markdown_pattern t)
               @ (if saves e (attempts (findall2 markdown_pattern t)) = []
                  then attempts (context_matches t) else []);
          a4 = (if length (saves e (a1 @ a2 @ a3)) < 4 then attempts (content_matches t) else [])
      in a1 @ a2 @ a3 @ a4)"

text \<open>
  Sample runs. \<open>plain_name\<close> is how names open files in an empty output directory that is
  the only place where the run can write: a plain name opens the file of that name,
  \<open>./name\<close> the same file, and a name that leads elsewhere or that no file can have opens
  nothing. \<open>env0\<close> has this directory and a standard output that prints everything;
  \<open>env_unset\<close> is the run before \<open>_setup_run_directories\<close>; in \<open>env_readonly\<close> no file opens;
  in \<open>env_strict\<close> the standard output cannot encode one character, \<open>CHR 0xFF\<close> here (for
  a UTF-8 stream the characters of this kind are the lone surrogates, which the decoding of a
  JSON response lets into the text).
\<close>

definition plain_name :: "string \<Rightarrow> string option" where
  "plain_name n =
     (let m = (if take 2 n = ''./'' then drop 2 n else n)
      in if m = [] \<or> CHR ''/'' \<in> set m \<or> CHR 0x00 \<in> set m \<or> 255 < length m then None
         else Some m)"

definition env0 :: env where
  "env0 = \<lparr>test_output_dir = Some ''run_files/run_1/tests'', can_mkdir = True,
           opens = plain_name, write_fails = (\<lambda>_. None), files = Map.empty, written = [],
           stdout_fixed = True, stdout_char = (\<lambda>_. True)\<rparr>"

definition env_unset :: env where
  "env_unset = env0\<lparr>test_output_dir := None\<rparr>"

definition env_readonly :: env where
  "env_readonly = env0\<lparr>opens := (\<lambda>_. None)\<rparr>"

definition env_strict :: env where
  "env_strict = env0\<lparr>stdout_char := (\<lambda>c. c \<noteq> CHR 0xFF)\<rparr>"

text \<open>The groups in \<open>g'\<close> are those of \<open>g\<close> or made of characters of \<open>s\<close>; a name is
  \<open>from_text t\<close> when each of its characters is in \<open>t\<close> or is ASCII.\<close>

definition within :: "string \<Rightarrow> caps \<Rightarrow> caps \<Rightarrow> bool" where
  "within s g g' = (\<forall>iv \<in> set g'. iv \<in> set g \<or> set (snd iv) \<subseteq> set s)"

definition from_text :: "string \<Rightarrow> string \<Rightarrow> bool" where
  "from_text t n = (\<forall>c \<in> set n. c \<in> set t \<or> is_ascii c)"

text \<open>A content of 130 characters with both markers and balanced braces, of which 101 are
  trailing blanks.\<close>

definition padded_test :: string where
  "padded_test = ''import { test, expect } test('' @ replicate 101 CHR '' ''"

text \<open>A graph whose edges join nodes of the graph, and whose nodes are among \<open>B\<close>.\<close>

definition graph_ok :: "string set \<Rightarrow> digraph \<Rightarrow> bool" where
  "graph_ok B g = (fst ` set (edges g) \<subseteq> set (nodes g) \<and> snd ` set (edges g) \<subseteq> set (nodes g)
      \<and> set (nodes g) \<subseteq> B)"

text \<open>A test file of 120 characters that the validator accepts.\<close>

definition sample_test :: string where
  "sample_test = ''import { test, expect } from `@playwright/test`; test(`home page loads`, async ({ page }) => { await page.goto(`/`); });''"

section \<open>Facts about the string primitives\<close>

lemma startswith_append: "startswith s (p @ q) \<Longrightarrow> startswith s p"
  unfolding startswith_def
  by (metis append_eq_conv_conj length_append take_take min_def le_add1)

lemma py_in_append: "py_in (p @ q) s \<Longrightarrow> py_in p s"
proof (induction s)
  case Nil
  then show ?case by simp
next
  case (Cons c cs)
  then show ?case using startswith_append [of "c # cs" p q] by auto
qed

section \<open>The role classifier: the extension rule comes before the form rule\<close>

text \<open>
  C3 (as stated): \<open>UserForm.jsx\<close> is classified Form. The name contains \<open>.jsx\<close>, and the
  rule for the component extensions is tried before the rule for \<open>form\<close>: the claim fails.
\<close>

theorem classify_UserForm_jsx_not_Form:
  "classify_file_role ''UserForm.jsx'' [] [] \<noteq> Form"
  by code_simp

text \<open>
  C3 (amended): for every content and every list of imports, \<open>UserForm.jsx\<close> is classified
  Component; a file is classified Form when its lower-cased name contains \<open>form\<close> or
  \<open>input\<close> and none of \<open>route\<close>, \<open>api\<close>, \<open>service\<close>, \<open>.tsx\<close>, \<open>.jsx\<close>, \<open>.vue\<close>.
\<close>

theorem classify_UserForm_jsx_Component:
  "classify_file_role ''UserForm.jsx'' c i = Component \<and>
   (\<not> py_in ''route'' (lower f) \<and> \<not> py_in ''api'' (lower f) \<and> \<not> py_in ''service'' (lower f)
    \<and> \<not> py_in ''.tsx'' (lower f) \<and> \<not> py_in ''.jsx'' (lower f) \<and> \<not> py_in ''.vue'' (lower f)
    \<and> (py_in ''form'' (lower f) \<or> py_in ''input'' (lower f))
    \<longrightarrow> classify_file_role f c i = Form)"
proof -
  have router: "\<not> py_in ''router'' s" if "\<not> py_in ''route'' s" for s
    using that py_in_append [of "''route''" "''r''" s] by auto
  have "classify_file_role ''UserForm.jsx'' [] [] = Component"
    by code_simp
  then have "classify_file_role ''UserForm.jsx'' c i = Component"
    by (simp add: classify_file_role_def)
  then show ?thesis
    using router [of "lower f"] by (auto simp: classify_file_role_def Let_def)
qed

lemma lower_UserForm_js: "lower ''UserForm.js'' = ''userform.js''"
  by code_simp

text \<open>The amended C3 at \<open>UserForm.js\<close>, a name with \<open>form\<close> and without a component
  extension.\<close>

theorem classify_UserForm_js_witness:
  "\<not> py_in ''route'' (lower ''UserForm.js'') \<and> \<not> py_in ''.jsx'' (lower ''UserForm.js'')
   \<and> py_in ''form'' (lower ''UserForm.js'')
   \<and> classify_file_role ''UserForm.js'' [] [] = Form"
  using classify_UserForm_jsx_Component [of "[]" "[]" "''UserForm.js''"]
  by (simp add: lower_UserForm_js startswith_def)

section \<open>The feature synthesizer: pairs of a route and a page\<close>

lemma any_route_page_no_pages: "pages a = [] \<Longrightarrow> \<not> any_route_page a kw"
  by (simp add: any_route_page_def list_ex_iff)

lemma any_route_page_no_routes: "routes a = [] \<Longrightarrow> \<not> any_route_page a kw"
  by (simp add: any_route_page_def)

text \<open>
  C5: a route that contains \<open>dashboard\<close> gives the tag Dashboard Management whatever the
  pages are. With the route \<open>/dashboard\<close> and no page the condition ranges over no pair
  at all, and no tag is emitted.
\<close>

theorem extract_features_dashboard_route_no_pages:
  "extract_features \<lparr>routes = [''/dashboard''], components = [], pages = [], forms = [],
      api_endpoints = [], user_flows = [], features = []\<rparr> = []"
  by (simp add: extract_features_def any_route_page_def any_route_def feature_def lower_def
      lower_char_def startswith_def)

section \<open>The artifact validator\<close>

lemma strip_Nil: "strip [] = []" by (simp add: strip_def)

lemma count_insert: "count (a @ c # b) d = count (a @ b) d + (if c = d then 1 else 0)"
  by (simp add: count_def)

lemma sample_ok: "is_valid_test_content sample_test"
  unfolding sample_test_def by code_simp

text \<open>
  C6 (amended): the validator accepts a content exactly when its length after stripping is
  at least 100, it contains the import marker, it contains \<open>test(\<close> or
  \<open>test.describe\<close>, and it has as many opening as closing braces; an accepted content
  with one more closing brace, put anywhere, is rejected.
\<close>

theorem is_valid_test_content_iff:
  "(is_valid_test_content c \<longleftrightarrow>
      100 \<le> length (strip c) \<and> py_in import_marker c
      \<and> (py_in ''test('' c \<or> py_in ''test.describe'' c)
      \<and> count c CHR ''{'' = count c CHR ''}'')
   \<and> (is_valid_test_content (a @ b) \<longrightarrow> \<not> is_valid_test_content (a @ ''}'' @ b))"
proof -
  have iff: "is_valid_test_content c \<longleftrightarrow>
      100 \<le> length (strip c) \<and> py_in import_marker c
      \<and> (py_in ''test('' c \<or> py_in ''test.describe'' c)
      \<and> count c CHR ''{'' = count c CHR ''}''" for c
    by (cases "c = []") (auto simp: is_valid_test_content_def strip_Nil Let_def)
  have "count (a @ b) CHR ''{'' = count (a @ b) CHR ''}''
      \<Longrightarrow> count (a @ ''}'' @ b) CHR ''{'' \<noteq> count (a @ ''}'' @ b) CHR ''}''"
    by (simp add: count_insert)
  then show ?thesis using iff [of c] iff [of "a @ b"] iff [of "a @ ''}'' @ b"] by blast
qed

text \<open>C6 at the sample: accepted, and rejected with a closing brace appended.\<close>

theorem is_valid_test_content_witness: "is_valid_test_content sample_test \<and> \<not> is_valid_test_content (sample_test @ ''}'')"
  using is_valid_test_content_iff [of sample_test sample_test "[]"] sample_ok by simp

lemma padded_facts:
  "\<not> is_valid_test_content padded_test" "length padded_test = 130"
  "py_in import_marker padded_test" "py_in ''test('' padded_test"
  "count padded_test CHR ''{'' = count padded_test CHR ''}''"
  unfolding padded_test_def by code_simp+

lemma sample_length: "length sample_test = 120"
  unfolding sample_test_def by code_simp

text \<open>
  C6 (as stated): the validator accepts exactly when the length of the content exceeds a
  threshold and the three other conditions hold. No threshold on the length of the content
  does: the sample of 120 characters is accepted, and the content of 130 characters that
  keeps both markers and balanced braces, but is blank from its 30th character on, is
  rejected. The code measures the content stripped.
\<close>

theorem is_valid_test_content_raw_length:
  "\<not> (\<exists>T. \<forall>c. is_valid_test_content c =
        (T < length c \<and> py_in import_marker c
         \<and> (py_in ''test('' c \<or> py_in ''test.describe'' c)
         \<and> count c CHR ''{'' = count c CHR ''}''))"
proof
  assume "\<exists>T. \<forall>c. is_valid_test_content c =
        (T < length c \<and> py_in import_marker c
         \<and> (py_in ''test('' c \<or> py_in ''test.describe'' c)
         \<and> count c CHR ''{'' = count c CHR ''}'')"
  then obtain T where T: "\<And>c. is_valid_test_content c =
        (T < length c \<and> py_in import_marker c
         \<and> (py_in ''test('' c \<or> py_in ''test.describe'' c)
         \<and> count c CHR ''{'' = count c CHR ''}'')"
    by blast
  from T [of sample_test] sample_ok have "T < 120" by (simp add: sample_length)
  then have "is_valid_test_content padded_test"
    using T [of padded_test] padded_facts(2-5) by simp
  with padded_facts(1) show False by simp
qed

section \<open>The flow document parser\<close>

lemma flow_step_heading:
  "is_heading_line l \<Longrightarrow> flow_step (fs, cur) l =
     ((case cur of Some c \<Rightarrow> fs @ [c] | None \<Rightarrow> fs),
      Some \<lparr>flow_name = strip (replace (strip l) heading []), flow_content = stripped_line l,
            flow_filename = generate_flow_filename (strip (replace (strip l) heading []))\<rparr>)"
  by (simp add: flow_step_def is_heading_line_def stripped_line_def Let_def)

lemma flow_step_other_Some:
  "\<not> is_heading_line l \<Longrightarrow> flow_step (fs, Some c) l =
     (fs, Some (c\<lparr>flow_content := flow_content c @ stripped_line l\<rparr>))"
  by (simp add: flow_step_def is_heading_line_def stripped_line_def Let_def)

lemma flow_step_other_None:
  "\<not> is_heading_line l \<Longrightarrow> flow_step (fs, None) l = (fs, None)"
  by (simp add: flow_step_def is_heading_line_def Let_def)

lemma length_flow_loop:
  "length (flow_finish (foldl flow_step (fs, cur) ls)) =
     length fs + (case cur of Some c \<Rightarrow> 1 | None \<Rightarrow> 0) + length (filter is_heading_line ls)"
proof (induction ls arbitrary: fs cur)
  case Nil
  then show ?case by (simp add: flow_finish_def split: option.splits)
next
  case (Cons l ls)
  show ?case
  proof (cases "is_heading_line l")
    case True
    then show ?thesis
      by (simp add: flow_step_heading Cons.IH split: option.splits)
  next
    case False
    then show ?thesis
      by (cases cur) (simp_all add: flow_step_other_Some flow_step_other_None Cons.IH)
  qed
qed

lemma flow_loop_skip:
  "list_all (\<lambda>l. \<not> is_heading_line l) pre \<Longrightarrow> foldl flow_step (fs, None) pre = (fs, None)"
  by (induction pre) (simp_all add: flow_step_other_None)

lemma split_on_not_Nil: "split_on c s \<noteq> []"
  by (induction s) (auto split: list.splits)

lemma split_on_append: "split_on c (a @ c # b) = split_on c a @ split_on c b"
proof (induction a)
  case Nil
  then show ?case by simp
next
  case (Cons x a)
  then show ?case
    using split_on_not_Nil [of c a] by (cases "split_on c a") auto
qed

lemma flow_loop_blocks_Some:
  "\<exists>b bs. b @ concat bs = ls \<and>
     map flow_content (flow_finish (foldl flow_step (fs, Some c) ls)) =
       map flow_content fs @ (flow_content c @ render b) # map render bs"
proof (induction ls arbitrary: fs c)
  case Nil
  have "[] @ concat [] = ([] :: string list) \<and>
     map flow_content (flow_finish (foldl flow_step (fs, Some c) [])) =
       map flow_content fs @ (flow_content c @ render []) # map render []"
    by (simp add: flow_finish_def render_def)
  then show ?case by blast
next
  case (Cons l ls)
  show ?case
  proof (cases "is_heading_line l")
    case True
    define c' where "c' = \<lparr>flow_name = strip (replace (strip l) heading []), flow_content = stripped_line l,
            flow_filename = generate_flow_filename (strip (replace (strip l) heading []))\<rparr>"
    have st: "flow_step (fs, Some c) l = (fs @ [c], Some c')"
      using True by (simp add: flow_step_heading c'_def)
    from Cons.IH [of "fs @ [c]" c'] obtain b bs where
      b: "b @ concat bs = ls" and
      r: "map flow_content (flow_finish (foldl flow_step (fs @ [c], Some c') ls)) =
            map flow_content (fs @ [c]) @ (flow_content c' @ render b) # map render bs"
      by blast
    have "[] @ concat ((l # b) # bs) = l # ls" using b by simp
    moreover have "map flow_content (flow_finish (foldl flow_step (fs, Some c) (l # ls))) =
        map flow_content fs @ (flow_content c @ render []) # map render ((l # b) # bs)"
      using r st by (simp add: render_def c'_def)
    ultimately show ?thesis by blast
  next
    case False
    define c' where "c' = c\<lparr>flow_content := flow_content c @ stripped_line l\<rparr>"
    have st: "flow_step (fs, Some c) l = (fs, Some c')"
      using False by (simp add: flow_step_other_Some c'_def)
    from Cons.IH [of fs c'] obtain b bs where
      b: "b @ concat bs = ls" and
      r: "map flow_content (flow_finish (foldl flow_step (fs, Some c') ls)) =
            map flow_content fs @ (flow_content c' @ render b) # map render bs"
      by blast
    have "(l # b) @ concat bs = l # ls" using b by simp
    moreover have "map flow_content (flow_finish (foldl flow_step (fs, Some c) (l # ls))) =
        map flow_content fs @ (flow_content c @ render (l # b)) # map render bs"
      using r st by (simp add: render_def c'_def)
    ultimately show ?thesis by blast
  qed
qed

lemma flow_loop_blocks_None:
  "\<exists>bs. concat bs = dropWhile (\<lambda>l. \<not> is_heading_line l) ls \<and>
     map flow_content (flow_finish (foldl flow_step ([], None) ls)) = map render bs"
proof (induction ls)
  case Nil
  show ?case
    by (rule exI [of _ "[]"]) (simp add: flow_finish_def)
next
  case (Cons l ls)
  show ?case
  proof (cases "is_heading_line l")
    case True
    define c' where "c' = \<lparr>flow_name = strip (replace (strip l) heading []), flow_content = stripped_line l,
            flow_filename = generate_flow_filename (strip (replace (strip l) heading []))\<rparr>"
    have st: "flow_step ([], None) l = ([], Some c')"
      using True by (simp add: flow_step_heading c'_def)
    have fc: "flow_content c' = stripped_line l"
      by (simp add: c'_def)
    from flow_loop_blocks_Some [of ls "[]" c'] obtain b bs where
      b: "b @ concat bs = ls" and
      r: "map flow_content (flow_finish (foldl flow_step ([], Some c') ls)) =
            (flow_content c' @ render b) # map render bs"
      by auto
    have d: "dropWhile (\<lambda>l. \<not> is_heading_line l) (l # ls) = l # ls"
      using True by simp
    have "concat ((l # b) # bs) = l # ls"
      using b by simp
    moreover have "map flow_content (flow_finish (foldl flow_step ([], None) (l # ls))) =
        map render ((l # b) # bs)"
      using r by (simp add: st fc render_def)
    ultimately show ?thesis
      unfolding d by (intro exI [of _ "(l # b) # bs"] conjI)
  next
    case False
    have "foldl flow_step ([], None) (l # ls) = foldl flow_step ([], None) ls"
      using False by (simp add: flow_step_other_None)
    moreover have "dropWhile (\<lambda>l. \<not> is_heading_line l) (l # ls) = dropWhile (\<lambda>l. \<not> is_heading_line l) ls"
      using False by simp
    ultimately show ?thesis using Cons.IH by (simp only:)
  qed
qed

text \<open>
  C7 (as stated): one flow for each line that starts with \<open>## Flow:\<close>. The loop strips a
  line before it looks for the marker: the document that is one indented heading has no
  line starting with the marker, and gives one flow.
\<close>

theorem parse_user_flows_indented_heading:
  "length (parse_user_flows ''  ## Flow: A'') = 1
   \<and> filter (\<lambda>l. startswith l heading) (split_on nl ''  ## Flow: A'') = []"
  by code_simp

text \<open>
  C7 (amended): the parser gives one flow for each line that starts with \<open>## Flow:\<close>
  once stripped; lines without a heading in front of a document change nothing; a document
  without a heading line gives no flow.
\<close>

theorem parse_user_flows_count:
  "length (parse_user_flows doc) = length (filter is_heading_line (split_on nl doc))
   \<and> (list_all (\<lambda>l. \<not> is_heading_line l) (split_on nl pre)
        \<longrightarrow> parse_user_flows (pre @ nl # doc) = parse_user_flows doc)
   \<and> (filter is_heading_line (split_on nl doc) = [] \<longrightarrow> parse_user_flows doc = [])"
proof -
  have len: "length (parse_user_flows d) = length (filter is_heading_line (split_on nl d))" for d
    by (simp add: parse_user_flows_def length_flow_loop)
  have "parse_user_flows (pre @ nl # doc) = parse_user_flows doc"
    if "list_all (\<lambda>l. \<not> is_heading_line l) (split_on nl pre)"
    using that by (simp add: parse_user_flows_def split_on_append flow_loop_skip)
  moreover have "parse_user_flows doc = []" if "filter is_heading_line (split_on nl doc) = []"
    using that len [of doc] by simp
  ultimately show ?thesis using len [of doc] by blast
qed

text \<open>The amended C7 on an introduction of two lines before an indented heading.\<close>

theorem parse_user_flows_count_witness:
  "list_all (\<lambda>l. \<not> is_heading_line l) (split_on nl ''Intro\<newline>text'')
   \<and> parse_user_flows (''Intro\<newline>text'' @ nl # ''  ## Flow: A\<newline>step'')
       = parse_user_flows ''  ## Flow: A\<newline>step''
   \<and> length (parse_user_flows ''  ## Flow: A\<newline>step'') = 1"
proof -
  have a: "list_all (\<lambda>l. \<not> is_heading_line l) (split_on nl ''Intro\<newline>text'')"
    by code_simp
  have c: "length (filter is_heading_line (split_on nl ''  ## Flow: A\<newline>step'')) = 1"
    by code_simp
  from parse_user_flows_count [of "''  ## Flow: A\<newline>step''" "''Intro\<newline>text''"]
  have "length (parse_user_flows ''  ## Flow: A\<newline>step'')
          = length (filter is_heading_line (split_on nl ''  ## Flow: A\<newline>step''))"
    and "list_all (\<lambda>l. \<not> is_heading_line l) (split_on nl ''Intro\<newline>text'')
        \<longrightarrow> parse_user_flows (''Intro\<newline>text'' @ nl # ''  ## Flow: A\<newline>step'')
             = parse_user_flows ''  ## Flow: A\<newline>step''"
    by blast+
  with a c show ?thesis by (simp only: simp_thms)
qed

text \<open>
  C10: the lines from the first heading line on fall into consecutive blocks, one for each
  flow, and the content of a flow is its block with every line stripped and ended by a
  newline: indentation and trailing blanks of the input are not kept, as the example shows.
\<close>

theorem parse_user_flows_content_stripped:
  "(\<exists>blocks. concat blocks = dropWhile (\<lambda>l. \<not> is_heading_line l) (split_on nl doc)
      \<and> map flow_content (parse_user_flows doc)
          = map (\<lambda>b. concat (map (\<lambda>l. strip l @ [nl]) b)) blocks)
   \<and> map flow_content (parse_user_flows ''## Flow: A\<newline>    step one  '')
       = [''## Flow: A\<newline>step one\<newline>'']"
proof
  have "stripped_line = (\<lambda>l. strip l @ [nl])"
    by (rule ext) (simp add: stripped_line_def)
  then have r: "render = (\<lambda>b. concat (map (\<lambda>l. strip l @ [nl]) b))"
    by (simp add: render_def [abs_def])
  from flow_loop_blocks_None [of "split_on nl doc"] obtain bs where
    "concat bs = dropWhile (\<lambda>l. \<not> is_heading_line l) (split_on nl doc)"
    "map flow_content (flow_finish (foldl flow_step ([], None) (split_on nl doc))) = map render bs"
    by blast
  then have "concat bs = dropWhile (\<lambda>l. \<not> is_heading_line l) (split_on nl doc)
      \<and> map flow_content (parse_user_flows doc)
          = map (\<lambda>b. concat (map (\<lambda>l. strip l @ [nl]) b)) bs"
    by (simp only: parse_user_flows_def r simp_thms)
  then show "\<exists>blocks. concat blocks = dropWhile (\<lambda>l. \<not> is_heading_line l) (split_on nl doc)
      \<and> map flow_content (parse_user_flows doc)
          = map (\<lambda>b. concat (map (\<lambda>l. strip l @ [nl]) b)) blocks"
    by (rule exI)
  show "map flow_content (parse_user_flows ''## Flow: A\<newline>    step one  '')
       = [''## Flow: A\<newline>step one\<newline>'']"
    by code_simp
qed

section \<open>The graph builder\<close>

lemma set_nodes_add_node: "set (nodes (add_node g n)) = insert n (set (nodes g))"
  by (auto simp: add_node_def)

lemma edges_add_node: "edges (add_node g n) = edges g"
  by (simp add: add_node_def)

lemma set_nodes_add_edge: "set (nodes (add_edge g u v)) = insert u (insert v (set (nodes g)))"
  by (auto simp: add_edge_def Let_def set_nodes_add_node)

lemma set_edges_add_edge: "set (edges (add_edge g u v)) = insert (u, v) (set (edges g))"
  by (auto simp: add_edge_def Let_def edges_add_node)

lemma graph_ok_add_node: "graph_ok B g \<Longrightarrow> n \<in> B \<Longrightarrow> graph_ok B (add_node g n)"
  by (auto simp: graph_ok_def set_nodes_add_node edges_add_node)

lemma graph_ok_add_edge: "graph_ok B g \<Longrightarrow> u \<in> B \<Longrightarrow> v \<in> B \<Longrightarrow> graph_ok B (add_edge g u v)"
  by (auto simp: graph_ok_def set_nodes_add_edge set_edges_add_edge)

lemma graph_ok_import_edge:
  "graph_ok (basename ` set all_files) g \<Longrightarrow> filename \<in> basename ` set all_files
     \<Longrightarrow> graph_ok (basename ` set all_files) (import_edge all_files filename g imp)"
  by (auto simp: import_edge_def Let_def intro!: graph_ok_add_edge)

lemma nodes_import_edge: "set (nodes g) \<subseteq> set (nodes (import_edge all_files filename g imp))"
  by (auto simp: import_edge_def Let_def set_nodes_add_edge)

lemma graph_ok_import_edges:
  "graph_ok (basename ` set all_files) g \<Longrightarrow> filename \<in> basename ` set all_files
     \<Longrightarrow> graph_ok (basename ` set all_files) (foldl (import_edge all_files filename) g imps)"
  by (induction imps arbitrary: g) (simp_all add: graph_ok_import_edge)

lemma nodes_import_edges:
  "set (nodes g) \<subseteq> set (nodes (foldl (import_edge all_files filename) g imps))"
proof (induction imps arbitrary: g)
  case Nil
  then show ?case by simp
next
  case (Cons imp imps)
  show ?case
    using nodes_import_edge [of g all_files filename imp]
      Cons.IH [of "import_edge all_files filename g imp"] by auto
qed

lemma graph_ok_process_file:
  assumes "graph_ok (basename ` set all_files) (fst st)" and "file_path \<in> set all_files"
  shows "graph_ok (basename ` set all_files) (fst (process_file read all_files st file_path))"
proof (cases st)
  case (fields g file_roles route_map)
  show ?thesis
  proof (cases "read file_path")
    case None
    then show ?thesis using assms fields by (simp add: process_file_def)
  next
    case (Some body)
    have "basename file_path \<in> basename ` set all_files" using assms(2) by simp
    then have "graph_ok (basename ` set all_files)
        (foldl (import_edge all_files (basename file_path)) (add_node g (basename file_path))
           (extract_imports body))"
      using assms(1) fields by (simp add: graph_ok_import_edges graph_ok_add_node)
    then show ?thesis using Some fields by (simp add: process_file_def Let_def)
  qed
qed

lemma nodes_process_file:
  "set (nodes (fst st)) \<union> (case read file_path of None \<Rightarrow> {} | Some t \<Rightarrow> {basename file_path})
     \<subseteq> set (nodes (fst (process_file read all_files st file_path)))"
proof (cases st)
  case (fields g file_roles route_map)
  show ?thesis
  proof (cases "read file_path")
    case None
    then show ?thesis using fields by (simp add: process_file_def)
  next
    case (Some body)
    have "insert (basename file_path) (set (nodes g))
        \<subseteq> set (nodes (foldl (import_edge all_files (basename file_path))
             (add_node g (basename file_path)) (extract_imports body)))"
      using nodes_import_edges [of "add_node g (basename file_path)" all_files "basename file_path"
          "extract_imports body"]
      by (simp add: set_nodes_add_node)
    then show ?thesis using Some fields by (simp add: process_file_def Let_def)
  qed
qed

lemma graph_ok_loop:
  "graph_ok (basename ` set all_files) (fst st) \<Longrightarrow> set ps \<subseteq> set all_files
     \<Longrightarrow> graph_ok (basename ` set all_files) (fst (foldl (process_file read all_files) st ps))"
  by (induction ps arbitrary: st) (simp_all add: graph_ok_process_file)

lemma nodes_loop:
  "set (nodes (fst st)) \<union> basename ` {p \<in> set ps. read p \<noteq> None}
     \<subseteq> set (nodes (fst (foldl (process_file read all_files) st ps)))"
proof (induction ps arbitrary: st)
  case Nil
  then show ?case by simp
next
  case (Cons p ps)
  have "basename ` {q \<in> set (p # ps). read q \<noteq> None}
      \<subseteq> (case read p of None \<Rightarrow> {} | Some t \<Rightarrow> {basename p}) \<union> basename ` {q \<in> set ps. read q \<noteq> None}"
    by (auto split: option.splits)
  then show ?case
    using nodes_process_file [where st = st and read = read and file_path = p and all_files = all_files]
      Cons.IH [of "process_file read all_files st p"] by auto
qed

text \<open>
  C8: in the graph that \<open>_build_dependency_graph\<close> returns, both end points of every
  edge are nodes, every node is the basename of a collected file (so no edge names a
  basename outside the collected files), and the basename of every collected file that
  could be read is a node.
\<close>

theorem build_dependency_graph_no_dangling_edges:
  "fst ` set (edges (fst (build_dependency_graph read all_files)))
      \<subseteq> set (nodes (fst (build_dependency_graph read all_files)))
   \<and> snd ` set (edges (fst (build_dependency_graph read all_files)))
      \<subseteq> set (nodes (fst (build_dependency_graph read all_files)))
   \<and> set (nodes (fst (build_dependency_graph read all_files))) \<subseteq> basename ` set all_files
   \<and> basename ` {p \<in> set all_files. read p \<noteq> None}
      \<subseteq> set (nodes (fst (build_dependency_graph read all_files)))"
proof -
  have "graph_ok (basename ` set all_files) \<lparr>nodes = [], edges = []\<rparr>"
    by (simp add: graph_ok_def)
  then have "graph_ok (basename ` set all_files) (fst (build_dependency_graph read all_files))"
    unfolding build_dependency_graph_def
    using graph_ok_loop [where all_files = all_files and ps = all_files and read = read
        and st = "(\<lparr>nodes = [], edges = []\<rparr>, Map.empty, Map.empty)"]
    by simp
  moreover have "basename ` {p \<in> set all_files. read p \<noteq> None}
      \<subseteq> set (nodes (fst (build_dependency_graph read all_files)))"
    unfolding build_dependency_graph_def
    using nodes_loop [where all_files = all_files and ps = all_files and read = read
        and st = "(\<lparr>nodes = [], edges = []\<rparr>, Map.empty, Map.empty)"]
    by simp
  ultimately show ?thesis by (simp add: graph_ok_def)
qed

section \<open>The resilient artifact extractor\<close>

declare str_nat.simps [simp del] findall.simps [simp del]

lemma can_print_append: "can_print e (a @ b) = (can_print e a \<and> can_print e b)"
  by (auto simp: can_print_def)

lemma attempts_append: "attempts (a @ b) = attempts a @ attempts b"
  by (simp add: attempts_def)

lemma disk_writes_append: "disk_writes e (a @ b) = disk_writes e a @ disk_writes e b"
  by (simp add: disk_writes_def)

lemma saves_append: "saves e (a @ b) = saves e a @ saves e b"
  by (simp add: saves_def)

lemma attempts_Nil: "attempts [] = []" by (simp add: attempts_def)

lemma saves_Nil: "saves e [] = []" by (simp add: saves_def)

lemma disk_writes_Nil: "disk_writes e [] = []" by (simp add: disk_writes_def)

lemma attempts_Cons:
  "attempts ((n, c) # cands) = (if strip c \<noteq> [] then (n, strip c) # attempts cands else attempts cands)"
  by (simp add: attempts_def)

lemma after_saves_Nil: "after_saves e [] = e"
  by (simp add: after_saves_def disk_writes_def saves_def)

text \<open>What a save reads of the run is not changed by a save.\<close>

lemma frame_after:
  "test_output_dir (after_saves e cands) = test_output_dir e"
  "can_mkdir (after_saves e cands) = can_mkdir e"
  "opens (after_saves e cands) = opens e"
  "write_fails (after_saves e cands) = write_fails e"
  "stdout_fixed (after_saves e cands) = stdout_fixed e"
  "stdout_char (after_saves e cands) = stdout_char e"
  by (simp_all add: after_saves_def)

lemma same_run:
  assumes "test_output_dir e' = test_output_dir e" "opens e' = opens e"
    "write_fails e' = write_fails e" "stdout_fixed e' = stdout_fixed e"
    "stdout_char e' = stdout_char e"
  shows "can_print e' = can_print e" "saved_ok e' = saved_ok e" "handled e' = handled e"
    "disk_write e' = disk_write e" "disk_writes e' = disk_writes e" "saves e' = saves e"
proof -
  show cp: "can_print e' = can_print e"
    by (rule ext) (simp add: can_print_def assms)
  show so: "saved_ok e' = saved_ok e"
    by (rule ext) (auto simp: saved_ok_def assms cp split: prod.splits option.splits)
  show "handled e' = handled e"
    by (rule ext) (auto simp: handled_def assms cp so split: prod.splits option.splits)
  show dw: "disk_write e' = disk_write e"
    by (rule ext) (auto simp: disk_write_def assms split: prod.splits option.splits)
  show "disk_writes e' = disk_writes e"
    by (rule ext) (simp add: disk_writes_def dw)
  show "saves e' = saves e"
    by (rule ext) (simp add: saves_def so)
qed

lemmas same_run_after = same_run [OF frame_after(1) frame_after(3) frame_after(4) frame_after(5) frame_after(6)]

lemma after_after: "after_saves (after_saves e a) b = after_saves e (a @ b)"
  by (simp add: after_saves_def same_run_after [unfolded after_saves_def] disk_writes_append
      saves_append)

lemma py_print_eq: "py_print e s = (if can_print e s then Inr () else Inl UnicodeEncodeError)"
  by (simp add: py_print_def)

lemma save_file_eq:
  "save_file e n c =
     (if handled e (n, c) then Inr (saved_ok e (n, c), after_saves e [(n, c)])
      else Inl UnicodeEncodeError)"
proof -
  have cp: "can_print (e\<lparr>files := f\<rparr>) = can_print e" for f
    by (rule ext) (simp add: can_print_def)
  show ?thesis
    by (auto simp: save_file_def handled_def saved_ok_def after_saves_def disk_writes_def
        saves_def disk_write_def then_do_def py_print_def can_print_append cp
        Let_def split: option.splits)
qed

lemma saved_ok_can_print: "saved_ok e (n, c) \<Longrightarrow> can_print e n"
  by (auto simp: saved_ok_def can_print_append split: option.splits)

lemma saved_ok_handled: "saved_ok e nc \<Longrightarrow> handled e nc"
  by (cases nc) (simp add: handled_def)

lemma after_Cons: "after_saves (after_saves e [x]) xs = after_saves e (x # xs)"
  by (simp add: after_after)

lemma saves_Cons: "saves e (x # xs) = (if saved_ok e x then x # saves e xs else saves e xs)"
  by (simp add: saves_def)

lemma save_matches_eq:
  "save_matches e cands =
     (if list_all (handled e) (attempts cands)
      then Inr (map fst (saves e (attempts cands)), after_saves e (attempts cands))
      else Inl UnicodeEncodeError)"
proof (induction cands arbitrary: e)
  case Nil
  then show ?case by (simp add: attempts_Nil saves_def after_saves_Nil)
next
  case (Cons m cands)
  obtain n c where m: "m = (n, c)" by (cases m)
  show ?case
  proof (cases "strip c = []")
    case True
    then show ?thesis unfolding m by (simp add: attempts_Cons Cons.IH)
  next
    case False
    show ?thesis
    proof (cases "handled e (n, strip c)")
      case h: False
      then show ?thesis
        unfolding m using False by (simp add: attempts_Cons save_file_eq then_do_def)
    next
      case h: True
      show ?thesis
      proof (cases "saved_ok e (n, strip c)")
        case True
        have "can_print (after_saves e [(n, strip c)]) n"
          using saved_ok_can_print [OF True] by (simp add: same_run_after)
        then show ?thesis
          unfolding m using False h True
          by (simp add: attempts_Cons save_file_eq then_do_def py_print_def Cons.IH
              same_run_after after_Cons saves_Cons)
      next
        case no: False
        then show ?thesis
          unfolding m using False h
          by (simp add: attempts_Cons save_file_eq then_do_def Cons.IH
              same_run_after after_Cons saves_Cons)
      qed
    qed
  qed
qed

lemma markdown_eq:
  "parse_markdown_format e t =
     (if list_all (handled e)
          (attempts (findall2 markdown_pattern t)
           @ (if saves e (attempts (findall2 markdown_pattern t)) = []
              then attempts (context_matches t) else []))
      then Inr (map fst (saves e (attempts (findall2 markdown_pattern t)
                  @ (if saves e (attempts (findall2 markdown_pattern t)) = []
                     then attempts (context_matches t) else []))),
                after_saves e (attempts (findall2 markdown_pattern t)
                  @ (if saves e (attempts (findall2 markdown_pattern t)) = []
                     then attempts (context_matches t) else [])))
      else Inl UnicodeEncodeError)"
  by (simp add: parse_markdown_format_def save_matches_eq then_do_def same_run_after
      after_after saves_append saves_Nil)

lemma can_print_Nil: "can_print e [] = stdout_fixed e"
  by (simp add: can_print_def)

lemma can_print_take: "can_print e s \<Longrightarrow> can_print e (take k s)"
  unfolding can_print_def list_all_iff by (auto dest: in_set_takeD)

lemma can_print_concat:
  "stdout_fixed e \<Longrightarrow> list_all (can_print e) ns \<Longrightarrow> can_print e (concat ns)"
  by (induction ns) (simp_all add: can_print_Nil can_print_append)

lemma saves_can_print: "list_all (can_print e) (map fst (saves e atts))"
  by (induction atts) (auto simp: saves_Cons saves_Nil dest: saved_ok_can_print)

lemma set_dict_fromkeys: "set (dict_fromkeys xs) = set xs"
  by (induction xs rule: dict_fromkeys.induct) auto

lemma distinct_dict_fromkeys: "distinct (dict_fromkeys xs)"
  by (induction xs rule: dict_fromkeys.induct) (auto simp: set_dict_fromkeys)

lemma dict_fromkeys_can_print:
  "stdout_fixed e \<Longrightarrow> can_print e (concat (dict_fromkeys (map fst (saves e atts))))"
  using saves_can_print [of e atts]
  by (intro can_print_concat) (simp_all add: list_all_iff set_dict_fromkeys)

lemma strategies_eq:
  "then_do (parse_filename_format e t) (\<lambda>(s1, e1).
   then_do (parse_hash_format e1 t) (\<lambda>(s2, e2).
   then_do (parse_markdown_format e2 t) (\<lambda>(s3, e3).
   then_do (if length (s1 @ s2 @ s3) < 4
            then then_do (parse_by_content_mapping e3 t) (\<lambda>(s4, e4). Inr (s1 @ s2 @ s3 @ s4, e4))
            else Inr (s1 @ s2 @ s3, e3)) k)))
   = (if list_all (handled e) (cascade_run e t)
      then k (map fst (saves e (cascade_run e t)), after_saves e (cascade_run e t))
      else Inl UnicodeEncodeError)"
  by (simp add: parse_filename_format_def parse_hash_format_def markdown_eq
      parse_by_content_mapping_def save_matches_eq then_do_def same_run_after after_after
      saves_append saves_Nil cascade_run_def Let_def)

lemma parse_test_files_eq:
  "parse_test_files e t =
     (if \<not> can_print e (take 500 t) then Inl UnicodeEncodeError
      else case makedirs e of
        Inl err \<Rightarrow> Inl err
      | Inr u \<Rightarrow>
          if \<not> list_all (handled e) (cascade_run e t) then Inl UnicodeEncodeError
          else if saves e (cascade_run e t) = [] \<and> \<not> can_print e (take 1000 t)
            then Inl UnicodeEncodeError
          else Inr (dict_fromkeys (map fst (saves e (cascade_run e t))),
                    after_saves e (cascade_run e t)))"
proof (cases "can_print e (take 500 t)")
  case False
  then show ?thesis
    by (simp add: parse_test_files_def then_do_def py_print_def can_print_Nil)
next
  case True
  then have fixed: "stdout_fixed e" by (simp add: can_print_def)
  have nil: "dict_fromkeys (map fst xs) = [] \<longleftrightarrow> xs = []" for xs :: "(string \<times> string) list"
    by (cases xs) simp_all
  show ?thesis
    unfolding parse_test_files_def strategies_eq
    using True fixed dict_fromkeys_can_print [OF fixed, of "cascade_run e t"]
    by (simp add: then_do_def py_print_def can_print_Nil same_run_after frame_after nil Let_def
        split: sum.splits)
qed

lemma can_print_ascii: "stdout_fixed e \<Longrightarrow> list_all is_ascii s \<Longrightarrow> can_print e s"
  by (simp add: can_print_def list_all_iff)

lemma strip_hello: "strip ''hello\<newline>'' = ''hello''" by code_simp

lemma strip_world: "strip ''world'' = ''world''" by code_simp

lemma strip_foo: "strip ''foo'' = ''foo''" by code_simp

lemma scenario_filename:
  "findall2 filename_pattern ''FILENAME: a.spec.ts\<newline>hello\<newline>FILENAME: b.spec.ts\<newline>world''
     = [(''a.spec.ts'', ''hello\<newline>''), (''b.spec.ts'', ''world'')]"
  by code_simp

lemma scenario_hash:
  "findall2 hash_pattern ''FILENAME: a.spec.ts\<newline>hello\<newline>FILENAME: b.spec.ts\<newline>world'' = []"
  by code_simp

lemma scenario_markdown:
  "findall2 markdown_pattern ''FILENAME: a.spec.ts\<newline>hello\<newline>FILENAME: b.spec.ts\<newline>world'' = []"
  by code_simp

lemma scenario_context:
  "context_matches ''FILENAME: a.spec.ts\<newline>hello\<newline>FILENAME: b.spec.ts\<newline>world'' = []"
  by code_simp

lemma scenario_content:
  "content_matches ''FILENAME: a.spec.ts\<newline>hello\<newline>FILENAME: b.spec.ts\<newline>world'' = []"
  by code_simp

lemma scenario_ascii:
  "list_all is_ascii ''FILENAME: a.spec.ts\<newline>hello\<newline>FILENAME: b.spec.ts\<newline>world''"
  by code_simp

lemma scenario_run:
  "cascade_run e ''FILENAME: a.spec.ts\<newline>hello\<newline>FILENAME: b.spec.ts\<newline>world''
     = [(''a.spec.ts'', ''hello''), (''b.spec.ts'', ''world'')]"
  by (simp add: cascade_run_def scenario_filename scenario_hash scenario_markdown
      scenario_context scenario_content attempts_def strip_hello strip_world saves_Nil)

lemma makedirs_ok: "test_output_dir e = Some d \<Longrightarrow> can_mkdir e \<Longrightarrow> makedirs e = Inr ()"
  by (simp add: makedirs_def)

text \<open>
  C9: on the text of the scenario, in a run where the output directory is set up, the two
  names open files, the two contents can be written and the standard output prints the
  messages, \<open>_parse_test_files\<close> returns the names \<open>a.spec.ts\<close> and \<open>b.spec.ts\<close>, and
  has written \<open>hello\<close> and \<open>world\<close> to their files, and nothing else.
\<close>

theorem parse_test_files_scenario:
  assumes "test_output_dir e = Some d" and "can_mkdir e"
    and "opens e ''a.spec.ts'' = Some pa" and "opens e ''b.spec.ts'' = Some pb"
    and "write_fails e ''hello'' = None" and "write_fails e ''world'' = None"
    and "can_print e d"
  shows "parse_test_files e ''FILENAME: a.spec.ts\<newline>hello\<newline>FILENAME: b.spec.ts\<newline>world''
    = Inr ([''a.spec.ts'', ''b.spec.ts''],
           e\<lparr>files := (files e)(pa \<mapsto> ''hello'', pb \<mapsto> ''world''),
             written := written e @ [(''a.spec.ts'', ''hello''), (''b.spec.ts'', ''world'')]\<rparr>)"
proof -
  have fixed: "stdout_fixed e" using assms(7) by (simp add: can_print_def)
  have whole: "can_print e ''FILENAME: a.spec.ts\<newline>hello\<newline>FILENAME: b.spec.ts\<newline>world''"
    by (rule can_print_ascii [OF fixed scenario_ascii])
  have a: "can_print e ''a.spec.ts''" "can_print e ''b.spec.ts''" "can_print e ''hello''"
    "can_print e ''world''"
    by (rule can_print_ascii [OF fixed], code_simp)+
  have ok: "saved_ok e (''a.spec.ts'', ''hello'')" "saved_ok e (''b.spec.ts'', ''world'')"
    using assms a by (simp_all add: saved_ok_def can_print_append)
  have dw: "disk_writes e [(''a.spec.ts'', ''hello''), (''b.spec.ts'', ''world'')]
      = [(pa, ''hello''), (pb, ''world'')]"
    using assms by (simp add: disk_writes_def disk_write_def)
  show ?thesis
    unfolding parse_test_files_eq scenario_run
    using assms ok saved_ok_handled [OF ok(1)] saved_ok_handled [OF ok(2)]
      can_print_take [OF whole, of 500]
    by (simp add: makedirs_ok saves_Cons saves_Nil after_saves_def dw)
qed

lemma plain_ab: "plain_name ''a.spec.ts'' = Some ''a.spec.ts''"
  "plain_name ''b.spec.ts'' = Some ''b.spec.ts''"
  by code_simp+

text \<open>C9 in the run \<open>env0\<close>.\<close>

theorem parse_test_files_scenario_witness:
  "parse_test_files env0 ''FILENAME: a.spec.ts\<newline>hello\<newline>FILENAME: b.spec.ts\<newline>world''
    = Inr ([''a.spec.ts'', ''b.spec.ts''],
           env0\<lparr>files := [''a.spec.ts'' \<mapsto> ''hello'', ''b.spec.ts'' \<mapsto> ''world''],
             written := [(''a.spec.ts'', ''hello''), (''b.spec.ts'', ''world'')]\<rparr>)"
proof -
  have "can_print env0 ''run_files/run_1/tests''"
    by (simp add: can_print_def env0_def list_all_iff)
  then show ?thesis
    using parse_test_files_scenario [of env0 "''run_files/run_1/tests''" "''a.spec.ts''" "''b.spec.ts''"]
    by (simp add: env0_def plain_ab)
qed

lemma env0_can_print: "can_print env0 s"
  by (simp add: can_print_def env0_def list_all_iff)

lemma env0_fields:
  "test_output_dir env0 = Some ''run_files/run_1/tests''" "can_mkdir env0"
  "opens env0 = plain_name" "write_fails env0 c = None" "files env0 = Map.empty"
  "written env0 = []" "stdout_fixed env0"
  by (simp_all add: env0_def)

lemma env0_saved_ok: "saved_ok env0 (n, c) = (plain_name n \<noteq> None)"
  by (simp add: saved_ok_def env0_can_print env0_fields)

lemma env0_handled: "handled env0 nc"
  by (cases nc) (simp add: handled_def env0_can_print env0_fields split: option.splits)

lemma env0_disk_write:
  "disk_write env0 (n, c) = (case plain_name n of None \<Rightarrow> [] | Some p \<Rightarrow> [(p, c)])"
  by (simp add: disk_write_def env0_fields split: option.splits)

lemma env0_makedirs: "makedirs env0 = Inr ()"
  by (simp add: makedirs_def env0_def)

lemma plain_test_1: "plain_name ''test_1.spec.ts'' = Some ''test_1.spec.ts''"
  by code_simp

lemma plain_visual: "plain_name ''visual.spec.ts'' = Some ''visual.spec.ts''"
  by code_simp

lemma plain_dot_a: "plain_name ''./a.spec.ts'' = Some ''a.spec.ts''"
  by code_simp

text \<open>
  C4 (amended): the backward search runs exactly when Strategy 1 of
  \<open>_parse_markdown_format\<close> (a name and a colon before a typescript fence) has saved no
  file: then the function goes on with the candidates of the backward search, otherwise it
  returns what Strategy 1 saved; an exception of Strategy 1 leaves the function. What the
  FILENAME and hash strategies saved plays no part.
\<close>

theorem backward_search_guard:
  "(\<forall>saved e1. save_matches e (findall2 markdown_pattern t) = Inr (saved, e1) \<longrightarrow>
      (saved \<noteq> [] \<longrightarrow> parse_markdown_format e t = Inr (saved, e1))
      \<and> (saved = [] \<longrightarrow> parse_markdown_format e t = save_matches e1 (context_matches t)))
   \<and> (\<forall>err. save_matches e (findall2 markdown_pattern t) = Inl err \<longrightarrow>
      parse_markdown_format e t = Inl err)"
  by (simp add: parse_markdown_format_def then_do_def)

lemma t4_filename:
  "findall2 filename_pattern ''FILENAME: a.spec.ts\<newline>```typescript\<newline>foo\<newline>```''
     = [(''a.spec.ts'', ''```typescript\<newline>foo\<newline>```'')]"
  by code_simp

lemma t4_hash:
  "findall2 hash_pattern ''FILENAME: a.spec.ts\<newline>```typescript\<newline>foo\<newline>```'' = []"
  by code_simp

lemma t4_markdown:
  "findall2 markdown_pattern ''FILENAME: a.spec.ts\<newline>```typescript\<newline>foo\<newline>```'' = []"
  by code_simp

lemma t4_context:
  "context_matches ''FILENAME: a.spec.ts\<newline>```typescript\<newline>foo\<newline>```''
     = [(''a.spec.ts'', ''foo'')]"
  by code_simp

lemma strip_t4: "strip ''```typescript\<newline>foo\<newline>```'' = ''```typescript\<newline>foo\<newline>```''"
  by code_simp

lemma env0_after_filename:
  "after_saves env0 [(''a.spec.ts'', ''```typescript\<newline>foo\<newline>```'')]
     = env0\<lparr>files := [''a.spec.ts'' \<mapsto> ''```typescript\<newline>foo\<newline>```''],
            written := [(''a.spec.ts'', ''```typescript\<newline>foo\<newline>```'')]\<rparr>"
  by (simp add: after_saves_def disk_writes_def env0_disk_write plain_ab saves_Cons saves_Nil
      env0_saved_ok env0_fields)

text \<open>
  C4 (as stated): the strategy that searches backwards from a fenced block contributes
  nothing once an earlier strategy has produced a result. On this text the FILENAME
  strategy saves \<open>a.spec.ts\<close>, the hash strategy nothing, the pattern of Strategy 1 of
  \<open>_parse_markdown_format\<close> matches nothing, and the backward search then saves
  \<open>a.spec.ts\<close> again, with the content \<open>foo\<close>.
\<close>

theorem backward_search_after_filename_label:
  "parse_filename_format env0 ''FILENAME: a.spec.ts\<newline>```typescript\<newline>foo\<newline>```''
     = Inr ([''a.spec.ts''],
         env0\<lparr>files := [''a.spec.ts'' \<mapsto> ''```typescript\<newline>foo\<newline>```''],
              written := [(''a.spec.ts'', ''```typescript\<newline>foo\<newline>```'')]\<rparr>)
   \<and> parse_hash_format
        (env0\<lparr>files := [''a.spec.ts'' \<mapsto> ''```typescript\<newline>foo\<newline>```''],
              written := [(''a.spec.ts'', ''```typescript\<newline>foo\<newline>```'')]\<rparr>)
        ''FILENAME: a.spec.ts\<newline>```typescript\<newline>foo\<newline>```''
     = Inr ([], env0\<lparr>files := [''a.spec.ts'' \<mapsto> ''```typescript\<newline>foo\<newline>```''],
              written := [(''a.spec.ts'', ''```typescript\<newline>foo\<newline>```'')]\<rparr>)
   \<and> findall2 markdown_pattern ''FILENAME: a.spec.ts\<newline>```typescript\<newline>foo\<newline>```'' = []
   \<and> context_matches ''FILENAME: a.spec.ts\<newline>```typescript\<newline>foo\<newline>```''
     = [(''a.spec.ts'', ''foo'')]
   \<and> parse_markdown_format
        (env0\<lparr>files := [''a.spec.ts'' \<mapsto> ''```typescript\<newline>foo\<newline>```''],
              written := [(''a.spec.ts'', ''```typescript\<newline>foo\<newline>```'')]\<rparr>)
        ''FILENAME: a.spec.ts\<newline>```typescript\<newline>foo\<newline>```''
     = Inr ([''a.spec.ts''],
         env0\<lparr>files := [''a.spec.ts'' \<mapsto> ''foo''],
              written := [(''a.spec.ts'', ''```typescript\<newline>foo\<newline>```''),
                          (''a.spec.ts'', ''foo'')]\<rparr>)"
proof -
  have f: "parse_filename_format env0 ''FILENAME: a.spec.ts\<newline>```typescript\<newline>foo\<newline>```''
      = Inr ([''a.spec.ts''], after_saves env0 [(''a.spec.ts'', ''```typescript\<newline>foo\<newline>```'')])"
    by (simp add: parse_filename_format_def save_matches_eq t4_filename attempts_def strip_t4
        env0_handled saves_Cons saves_Nil env0_saved_ok plain_ab)
  have h: "parse_hash_format e1 ''FILENAME: a.spec.ts\<newline>```typescript\<newline>foo\<newline>```''
      = Inr ([], e1)" for e1
    by (simp add: parse_hash_format_def save_matches_eq t4_hash attempts_def saves_Nil
        after_saves_Nil)
  have m: "parse_markdown_format (after_saves env0 [(''a.spec.ts'', ''```typescript\<newline>foo\<newline>```'')])
        ''FILENAME: a.spec.ts\<newline>```typescript\<newline>foo\<newline>```''
      = Inr ([''a.spec.ts''],
          after_saves env0 [(''a.spec.ts'', ''```typescript\<newline>foo\<newline>```''), (''a.spec.ts'', ''foo'')])"
    by (simp add: markdown_eq t4_markdown t4_context attempts_def strip_foo same_run_after
        env0_handled saves_Cons saves_Nil env0_saved_ok plain_ab after_after)
  have e2: "after_saves env0 [(''a.spec.ts'', ''```typescript\<newline>foo\<newline>```''), (''a.spec.ts'', ''foo'')]
      = env0\<lparr>files := [''a.spec.ts'' \<mapsto> ''foo''],
              written := [(''a.spec.ts'', ''```typescript\<newline>foo\<newline>```''),
                          (''a.spec.ts'', ''foo'')]\<rparr>"
    by (simp add: after_saves_def disk_writes_def env0_disk_write plain_ab saves_Cons saves_Nil
        env0_saved_ok env0_fields)
  show ?thesis
    using f h m unfolding env0_after_filename e2 t4_markdown t4_context by simp
qed

lemma t5_markdown:
  "findall2 markdown_pattern ''visual.spec.ts:\<newline>```typescript\<newline>foo\<newline>```''
     = [(''visual.spec.ts'', ''foo'')]"
  by code_simp

lemma t5_context:
  "context_matches ''visual.spec.ts:\<newline>```typescript\<newline>foo\<newline>```''
     = [(''visual.spec.ts'', ''foo'')]"
  by code_simp

text \<open>The amended C4 on a text where Strategy 1 saves a file (the backward search has a
  candidate and writes nothing), and on the text above where it saves none.\<close>

theorem backward_search_guard_witness:
  "save_matches env0 (findall2 markdown_pattern ''visual.spec.ts:\<newline>```typescript\<newline>foo\<newline>```'')
     = Inr ([''visual.spec.ts''],
        env0\<lparr>files := [''visual.spec.ts'' \<mapsto> ''foo''], written := [(''visual.spec.ts'', ''foo'')]\<rparr>)
   \<and> context_matches ''visual.spec.ts:\<newline>```typescript\<newline>foo\<newline>```''
     = [(''visual.spec.ts'', ''foo'')]
   \<and> parse_markdown_format env0 ''visual.spec.ts:\<newline>```typescript\<newline>foo\<newline>```''
     = Inr ([''visual.spec.ts''],
        env0\<lparr>files := [''visual.spec.ts'' \<mapsto> ''foo''], written := [(''visual.spec.ts'', ''foo'')]\<rparr>)
   \<and> save_matches env0
          (findall2 markdown_pattern ''FILENAME: a.spec.ts\<newline>```typescript\<newline>foo\<newline>```'')
     = Inr ([], env0)
   \<and> parse_markdown_format env0 ''FILENAME: a.spec.ts\<newline>```typescript\<newline>foo\<newline>```''
     = Inr ([''a.spec.ts''],
        env0\<lparr>files := [''a.spec.ts'' \<mapsto> ''foo''], written := [(''a.spec.ts'', ''foo'')]\<rparr>)"
proof -
  have a: "save_matches env0 (findall2 markdown_pattern ''visual.spec.ts:\<newline>```typescript\<newline>foo\<newline>```'')
      = Inr ([''visual.spec.ts''],
        env0\<lparr>files := [''visual.spec.ts'' \<mapsto> ''foo''], written := [(''visual.spec.ts'', ''foo'')]\<rparr>)"
    by (simp add: save_matches_eq t5_markdown attempts_def strip_foo env0_handled saves_Cons
        saves_Nil env0_saved_ok plain_visual after_saves_def disk_writes_def env0_disk_write
        env0_fields)
  have b: "save_matches env0
          (findall2 markdown_pattern ''FILENAME: a.spec.ts\<newline>```typescript\<newline>foo\<newline>```'')
      = Inr ([], env0)"
    by (simp add: save_matches_eq t4_markdown attempts_def saves_Nil after_saves_Nil)
  have c: "save_matches env0 (context_matches ''FILENAME: a.spec.ts\<newline>```typescript\<newline>foo\<newline>```'')
      = Inr ([''a.spec.ts''],
        env0\<lparr>files := [''a.spec.ts'' \<mapsto> ''foo''], written := [(''a.spec.ts'', ''foo'')]\<rparr>)"
    by (simp add: save_matches_eq t4_context attempts_def strip_foo env0_handled saves_Cons
        saves_Nil env0_saved_ok plain_ab after_saves_def disk_writes_def env0_disk_write
        env0_fields)
  show ?thesis
    using backward_search_guard [THEN conjunct1, rule_format, OF a]
      backward_search_guard [THEN conjunct1, rule_format, OF b] a b c t5_context
    by simp
qed

lemma last_write:
  assumes "map_of (rev (disk_writes e a2)) p = Some v"
    and "p \<notin> fst ` set (disk_writes e a34)"
  shows "files (after_saves e (a1 @ a2 @ a34)) p = Some v"
proof -
  have "map_of (rev (disk_writes e a34)) p = None"
    using assms(2) by (simp add: map_of_eq_None_iff)
  then show ?thesis
    using assms(1) by (simp add: after_saves_def disk_writes_append map_add_def)
qed

text \<open>
  C1 (amended): the strategies write their candidates at once, in the order FILENAME, hash,
  Strategy 1 of the markdown function, the backward search when that saved nothing, content
  mapping when fewer than four names were saved. The returned list holds every saved name
  once, at the place of its first save in that order. A write replaces what the file held:
  every file ends with what the last attempt that opened it left there, so the content of
  the later strategy when two strategies write one file; in particular what the hash
  strategy wrote last to a file that no later strategy opens is what the file holds,
  whatever the FILENAME strategy wrote to it.
\<close>

theorem parse_test_files_last_write_wins:
  assumes "parse_test_files e t = Inr (names, e')"
  shows "let a1 = attempts (findall2 filename_pattern t);
             a2 = attempts (findall2 hash_pattern t);
             a3 = attempts (findall2 markdown_pattern t)
                  @ (if saves e (attempts (findall2 markdown_pattern t)) = []
                     then attempts (context_matches t) else []);
             a4 = (if length (saves e (a1 @ a2 @ a3)) < 4 then attempts (content_matches t)
                   else []);
             run = a1 @ a2 @ a3 @ a4
         in names = dict_fromkeys (map fst (saves e run))
            \<and> files e' = files e ++ map_of (rev (disk_writes e run))
            \<and> (\<forall>p v. map_of (rev (disk_writes e a2)) p = Some v
                      \<and> p \<notin> fst ` set (disk_writes e (a3 @ a4))
                   \<longrightarrow> files e' p = Some v)"
proof -
  from assms have n: "names = dict_fromkeys (map fst (saves e (cascade_run e t)))"
    and e': "e' = after_saves e (cascade_run e t)"
    by (auto simp: parse_test_files_eq split: sum.splits if_splits)
  have f: "files e' = files e ++ map_of (rev (disk_writes e (cascade_run e t)))"
    unfolding e' by (simp add: after_saves_def)
  show ?thesis
    unfolding Let_def
  proof (intro conjI allI impI)
    show "names = dict_fromkeys (map fst (saves e
        (attempts (findall2 filename_pattern t) @ attempts (findall2 hash_pattern t) @
         (attempts (findall2 markdown_pattern t)
          @ (if saves e (attempts (findall2 markdown_pattern t)) = []
             then attempts (context_matches t) else [])) @
         (if length (saves e (attempts (findall2 filename_pattern t)
               @ attempts (findall2 hash_pattern t)
               @ attempts (findall2 markdown_pattern t)
               @ (if saves e (attempts (findall2 markdown_pattern t)) = []
                  then attempts (context_matches t) else []))) < 4
          then attempts (content_matches t) else []))))"
      using n unfolding cascade_run_def Let_def .
    show "files e' = files e ++ map_of (rev (disk_writes e
        (attempts (findall2 filename_pattern t) @ attempts (findall2 hash_pattern t) @
         (attempts (findall2 markdown_pattern t)
          @ (if saves e (attempts (findall2 markdown_pattern t)) = []
             then attempts (context_matches t) else [])) @
         (if length (saves e (attempts (findall2 filename_pattern t)
               @ attempts (findall2 hash_pattern t)
               @ attempts (findall2 markdown_pattern t)
               @ (if saves e (attempts (findall2 markdown_pattern t)) = []
                  then attempts (context_matches t) else []))) < 4
          then attempts (content_matches t) else []))))"
      using f unfolding cascade_run_def Let_def .
  next
    fix p v
    assume "map_of (rev (disk_writes e (attempts (findall2 hash_pattern t)))) p = Some v
      \<and> p \<notin> fst ` set (disk_writes e
        ((attempts (findall2 markdown_pattern t)
          @ (if saves e (attempts (findall2 markdown_pattern t)) = []
             then attempts (context_matches t) else [])) @
         (if length (saves e (attempts (findall2 filename_pattern t)
               @ attempts (findall2 hash_pattern t)
               @ attempts (findall2 markdown_pattern t)
               @ (if saves e (attempts (findall2 markdown_pattern t)) = []
                  then attempts (context_matches t) else []))) < 4
          then attempts (content_matches t) else [])))"
    then show "files e' p = Some v"
      unfolding e' cascade_run_def Let_def
      using last_write [of e "attempts (findall2 hash_pattern t)" p v _
          "attempts (findall2 filename_pattern t)"]
      by simp
  qed
qed

lemma strip_bar: "strip ''bar'' = ''bar''" by code_simp

lemma plain_test_2: "plain_name ''test_2.spec.ts'' = Some ''test_2.spec.ts''"
  by code_simp

lemma t1_filename: "findall2 filename_pattern ''FILENAME: a.spec.ts\<newline>#### a.spec.ts\<newline>```typescript\<newline>foo\<newline>```'' = [(''a.spec.ts'', ''#### a.spec.ts\<newline>```typescript\<newline>foo\<newline>```'')]"
  by code_simp

lemma t1_hash: "findall2 hash_pattern ''FILENAME: a.spec.ts\<newline>#### a.spec.ts\<newline>```typescript\<newline>foo\<newline>```'' = [(''a.spec.ts'', ''foo'')]"
  by code_simp

lemma t1_markdown: "findall2 markdown_pattern ''FILENAME: a.spec.ts\<newline>#### a.spec.ts\<newline>```typescript\<newline>foo\<newline>```'' = []"
  by code_simp

lemma t1_context: "context_matches ''FILENAME: a.spec.ts\<newline>#### a.spec.ts\<newline>```typescript\<newline>foo\<newline>```'' = [(''a.spec.ts'', ''foo'')]"
  by code_simp

lemma t1_content: "content_matches ''FILENAME: a.spec.ts\<newline>#### a.spec.ts\<newline>```typescript\<newline>foo\<newline>```'' = [(''test_1.spec.ts'', ''foo'')]"
  by code_simp

lemma strip_x1: "strip ''#### a.spec.ts\<newline>```typescript\<newline>foo\<newline>```'' = ''#### a.spec.ts\<newline>```typescript\<newline>foo\<newline>```''"
  by code_simp

lemma t1_run:
  "cascade_run env0 ''FILENAME: a.spec.ts\<newline>#### a.spec.ts\<newline>```typescript\<newline>foo\<newline>```''
     = [(''a.spec.ts'', ''#### a.spec.ts\<newline>```typescript\<newline>foo\<newline>```''), (''a.spec.ts'', ''foo''), (''a.spec.ts'', ''foo''),
        (''test_1.spec.ts'', ''foo'')]"
  by (simp add: cascade_run_def t1_filename t1_hash t1_markdown t1_context t1_content
      attempts_def strip_x1 strip_foo saves_Cons saves_Nil env0_saved_ok plain_ab plain_test_1)

lemma env0_parse:
  "parse_test_files env0 t =
     (if saves env0 (cascade_run env0 t) = [] \<and> \<not> can_print env0 (take 1000 t)
      then Inl UnicodeEncodeError
      else Inr (dict_fromkeys (map fst (saves env0 (cascade_run env0 t))),
                after_saves env0 (cascade_run env0 t)))"
  by (simp add: parse_test_files_eq env0_can_print env0_makedirs list_all_iff env0_handled)

text \<open>
  C1 (as stated): when two strategies produce the same file name, the content of the earlier
  one is kept. On this text the FILENAME strategy and then the hash strategy produce
  \<open>a.spec.ts\<close>, and the file ends with the content \<open>foo\<close> of the later strategy.
\<close>

theorem parse_test_files_keeps_later_content:
  "findall2 filename_pattern ''FILENAME: a.spec.ts\<newline>#### a.spec.ts\<newline>```typescript\<newline>foo\<newline>```'' = [(''a.spec.ts'', ''#### a.spec.ts\<newline>```typescript\<newline>foo\<newline>```'')]
   \<and> findall2 hash_pattern ''FILENAME: a.spec.ts\<newline>#### a.spec.ts\<newline>```typescript\<newline>foo\<newline>```'' = [(''a.spec.ts'', ''foo'')]
   \<and> parse_test_files env0 ''FILENAME: a.spec.ts\<newline>#### a.spec.ts\<newline>```typescript\<newline>foo\<newline>```''
      = Inr ([''a.spec.ts'', ''test_1.spec.ts''],
          env0\<lparr>files := [''a.spec.ts'' \<mapsto> ''foo'', ''test_1.spec.ts'' \<mapsto> ''foo''],
               written := [(''a.spec.ts'', ''#### a.spec.ts\<newline>```typescript\<newline>foo\<newline>```''),
                  (''a.spec.ts'', ''foo''), (''a.spec.ts'', ''foo''), (''test_1.spec.ts'', ''foo'')]\<rparr>)"
proof -
  have "parse_test_files env0 ''FILENAME: a.spec.ts\<newline>#### a.spec.ts\<newline>```typescript\<newline>foo\<newline>```''
      = Inr ([''a.spec.ts'', ''test_1.spec.ts''],
          env0\<lparr>files := [''a.spec.ts'' \<mapsto> ''foo'', ''test_1.spec.ts'' \<mapsto> ''foo''],
               written := [(''a.spec.ts'', ''#### a.spec.ts\<newline>```typescript\<newline>foo\<newline>```''),
                  (''a.spec.ts'', ''foo''), (''a.spec.ts'', ''foo''), (''test_1.spec.ts'', ''foo'')]\<rparr>)"
    unfolding env0_parse t1_run
    by (simp add: saves_Cons saves_Nil env0_saved_ok plain_ab plain_test_1 after_saves_def
        disk_writes_def env0_disk_write env0_fields)
  then show ?thesis using t1_filename t1_hash by simp
qed

lemma t3_filename: "findall2 filename_pattern ''FILENAME: a.spec.ts\<newline>#### a.spec.ts\<newline>```typescript\<newline>foo\<newline>```\<newline>visual.spec.ts:\<newline>```typescript\<newline>bar\<newline>```'' = [(''a.spec.ts'', ''#### a.spec.ts\<newline>```typescript\<newline>foo\<newline>```\<newline>visual.spec.ts:\<newline>```typescript\<newline>bar\<newline>```'')]"
  by code_simp

lemma t3_hash: "findall2 hash_pattern ''FILENAME: a.spec.ts\<newline>#### a.spec.ts\<newline>```typescript\<newline>foo\<newline>```\<newline>visual.spec.ts:\<newline>```typescript\<newline>bar\<newline>```'' = [(''a.spec.ts'', ''foo'')]"
  by code_simp

lemma t3_markdown: "findall2 markdown_pattern ''FILENAME: a.spec.ts\<newline>#### a.spec.ts\<newline>```typescript\<newline>foo\<newline>```\<newline>visual.spec.ts:\<newline>```typescript\<newline>bar\<newline>```'' = [(''visual.spec.ts'', ''bar'')]"
  by code_simp

lemma t3_content:
  "content_matches ''FILENAME: a.spec.ts\<newline>#### a.spec.ts\<newline>```typescript\<newline>foo\<newline>```\<newline>visual.spec.ts:\<newline>```typescript\<newline>bar\<newline>```'' = [(''test_1.spec.ts'', ''foo''), (''test_2.spec.ts'', ''bar'')]"
  by code_simp

lemma strip_x3: "strip ''#### a.spec.ts\<newline>```typescript\<newline>foo\<newline>```\<newline>visual.spec.ts:\<newline>```typescript\<newline>bar\<newline>```'' = ''#### a.spec.ts\<newline>```typescript\<newline>foo\<newline>```\<newline>visual.spec.ts:\<newline>```typescript\<newline>bar\<newline>```''"
  by code_simp

lemma t3_run:
  "cascade_run env0 ''FILENAME: a.spec.ts\<newline>#### a.spec.ts\<newline>```typescript\<newline>foo\<newline>```\<newline>visual.spec.ts:\<newline>```typescript\<newline>bar\<newline>```''
     = [(''a.spec.ts'', ''#### a.spec.ts\<newline>```typescript\<newline>foo\<newline>```\<newline>visual.spec.ts:\<newline>```typescript\<newline>bar\<newline>```''), (''a.spec.ts'', ''foo''), (''visual.spec.ts'', ''bar''),
        (''test_1.spec.ts'', ''foo''), (''test_2.spec.ts'', ''bar'')]"
  by (simp add: cascade_run_def t3_filename t3_hash t3_markdown t3_content
      attempts_def strip_x3 strip_foo strip_bar saves_Cons saves_Nil env0_saved_ok plain_ab
      plain_visual plain_test_1 plain_test_2)

lemma t3_parse:
  "parse_test_files env0 ''FILENAME: a.spec.ts\<newline>#### a.spec.ts\<newline>```typescript\<newline>foo\<newline>```\<newline>visual.spec.ts:\<newline>```typescript\<newline>bar\<newline>```''
     = Inr ([''a.spec.ts'', ''visual.spec.ts'', ''test_1.spec.ts'', ''test_2.spec.ts''],
         env0\<lparr>files := [''a.spec.ts'' \<mapsto> ''foo'', ''visual.spec.ts'' \<mapsto> ''bar'',
                         ''test_1.spec.ts'' \<mapsto> ''foo'', ''test_2.spec.ts'' \<mapsto> ''bar''],
              written := [(''a.spec.ts'', ''#### a.spec.ts\<newline>```typescript\<newline>foo\<newline>```\<newline>visual.spec.ts:\<newline>```typescript\<newline>bar\<newline>```''), (''a.spec.ts'', ''foo''), (''visual.spec.ts'', ''bar''),
                  (''test_1.spec.ts'', ''foo''), (''test_2.spec.ts'', ''bar'')]\<rparr>)"
  unfolding env0_parse t3_run
  by (simp add: saves_Cons saves_Nil env0_saved_ok plain_ab plain_visual plain_test_1
      plain_test_2 after_saves_def disk_writes_def env0_disk_write env0_fields)

lemma t2_filename:
  "findall2 filename_pattern ''FILENAME: ./a.spec.ts\<newline>hello\<newline>FILENAME: a.spec.ts\<newline>world'' = [(''./a.spec.ts'', ''hello\<newline>''), (''a.spec.ts'', ''world'')]"
  by code_simp

lemma t2_others:
  "findall2 hash_pattern ''FILENAME: ./a.spec.ts\<newline>hello\<newline>FILENAME: a.spec.ts\<newline>world'' = []" "findall2 markdown_pattern ''FILENAME: ./a.spec.ts\<newline>hello\<newline>FILENAME: a.spec.ts\<newline>world'' = []"
  "context_matches ''FILENAME: ./a.spec.ts\<newline>hello\<newline>FILENAME: a.spec.ts\<newline>world'' = []" "content_matches ''FILENAME: ./a.spec.ts\<newline>hello\<newline>FILENAME: a.spec.ts\<newline>world'' = []"
  by code_simp+

lemma t2_parse:
  "parse_test_files env0 ''FILENAME: ./a.spec.ts\<newline>hello\<newline>FILENAME: a.spec.ts\<newline>world''
     = Inr ([''./a.spec.ts'', ''a.spec.ts''],
         env0\<lparr>files := [''a.spec.ts'' \<mapsto> ''world''],
              written := [(''./a.spec.ts'', ''hello''), (''a.spec.ts'', ''world'')]\<rparr>)"
  unfolding env0_parse
  by (simp add: cascade_run_def t2_filename t2_others attempts_def strip_hello strip_world
      saves_Cons saves_Nil env0_saved_ok plain_ab plain_dot_a after_saves_def disk_writes_def
      env0_disk_write env0_fields)

text \<open>The amended C1 on a text where the FILENAME strategy, then the hash strategy write
  \<open>a.spec.ts\<close> and no later strategy does; and the run on a text that names one file
  twice, as \<open>./a.spec.ts\<close> and as \<open>a.spec.ts\<close>.\<close>

theorem parse_test_files_last_write_witness:
  "parse_test_files env0 ''FILENAME: a.spec.ts\<newline>#### a.spec.ts\<newline>```typescript\<newline>foo\<newline>```\<newline>visual.spec.ts:\<newline>```typescript\<newline>bar\<newline>```''
     = Inr ([''a.spec.ts'', ''visual.spec.ts'', ''test_1.spec.ts'', ''test_2.spec.ts''],
         env0\<lparr>files := [''a.spec.ts'' \<mapsto> ''foo'', ''visual.spec.ts'' \<mapsto> ''bar'',
                         ''test_1.spec.ts'' \<mapsto> ''foo'', ''test_2.spec.ts'' \<mapsto> ''bar''],
              written := [(''a.spec.ts'', ''#### a.spec.ts\<newline>```typescript\<newline>foo\<newline>```\<newline>visual.spec.ts:\<newline>```typescript\<newline>bar\<newline>```''), (''a.spec.ts'', ''foo''), (''visual.spec.ts'', ''bar''),
                  (''test_1.spec.ts'', ''foo''), (''test_2.spec.ts'', ''bar'')]\<rparr>)
   \<and> disk_writes env0 (attempts (findall2 filename_pattern ''FILENAME: a.spec.ts\<newline>#### a.spec.ts\<newline>```typescript\<newline>foo\<newline>```\<newline>visual.spec.ts:\<newline>```typescript\<newline>bar\<newline>```'')) = [(''a.spec.ts'', ''#### a.spec.ts\<newline>```typescript\<newline>foo\<newline>```\<newline>visual.spec.ts:\<newline>```typescript\<newline>bar\<newline>```'')]
   \<and> disk_writes env0 (attempts (findall2 hash_pattern ''FILENAME: a.spec.ts\<newline>#### a.spec.ts\<newline>```typescript\<newline>foo\<newline>```\<newline>visual.spec.ts:\<newline>```typescript\<newline>bar\<newline>```'')) = [(''a.spec.ts'', ''foo'')]
   \<and> files (env0\<lparr>files := [''a.spec.ts'' \<mapsto> ''foo'', ''visual.spec.ts'' \<mapsto> ''bar'',
                         ''test_1.spec.ts'' \<mapsto> ''foo'', ''test_2.spec.ts'' \<mapsto> ''bar''],
              written := [(''a.spec.ts'', ''#### a.spec.ts\<newline>```typescript\<newline>foo\<newline>```\<newline>visual.spec.ts:\<newline>```typescript\<newline>bar\<newline>```''), (''a.spec.ts'', ''foo''), (''visual.spec.ts'', ''bar''),
                  (''test_1.spec.ts'', ''foo''), (''test_2.spec.ts'', ''bar'')]\<rparr>) ''a.spec.ts''
      = Some ''foo''
   \<and> parse_test_files env0 ''FILENAME: ./a.spec.ts\<newline>hello\<newline>FILENAME: a.spec.ts\<newline>world''
     = Inr ([''./a.spec.ts'', ''a.spec.ts''],
         env0\<lparr>files := [''a.spec.ts'' \<mapsto> ''world''],
              written := [(''./a.spec.ts'', ''hello''), (''a.spec.ts'', ''world'')]\<rparr>)"
proof -
  have d1: "disk_writes env0 (attempts (findall2 filename_pattern ''FILENAME: a.spec.ts\<newline>#### a.spec.ts\<newline>```typescript\<newline>foo\<newline>```\<newline>visual.spec.ts:\<newline>```typescript\<newline>bar\<newline>```'')) = [(''a.spec.ts'', ''#### a.spec.ts\<newline>```typescript\<newline>foo\<newline>```\<newline>visual.spec.ts:\<newline>```typescript\<newline>bar\<newline>```'')]"
    by (simp add: t3_filename attempts_def strip_x3 disk_writes_def env0_disk_write plain_ab)
  have d2: "disk_writes env0 (attempts (findall2 hash_pattern ''FILENAME: a.spec.ts\<newline>#### a.spec.ts\<newline>```typescript\<newline>foo\<newline>```\<newline>visual.spec.ts:\<newline>```typescript\<newline>bar\<newline>```'')) = [(''a.spec.ts'', ''foo'')]"
    by (simp add: t3_hash attempts_def strip_foo disk_writes_def env0_disk_write plain_ab)
  have later: "''a.spec.ts'' \<notin> fst ` set (disk_writes env0
      ((attempts (findall2 markdown_pattern ''FILENAME: a.spec.ts\<newline>#### a.spec.ts\<newline>```typescript\<newline>foo\<newline>```\<newline>visual.spec.ts:\<newline>```typescript\<newline>bar\<newline>```'')
          @ (if saves env0 (attempts (findall2 markdown_pattern ''FILENAME: a.spec.ts\<newline>#### a.spec.ts\<newline>```typescript\<newline>foo\<newline>```\<newline>visual.spec.ts:\<newline>```typescript\<newline>bar\<newline>```'')) = []
             then attempts (context_matches ''FILENAME: a.spec.ts\<newline>#### a.spec.ts\<newline>```typescript\<newline>foo\<newline>```\<newline>visual.spec.ts:\<newline>```typescript\<newline>bar\<newline>```'') else [])) @
         (if length (saves env0 (attempts (findall2 filename_pattern ''FILENAME: a.spec.ts\<newline>#### a.spec.ts\<newline>```typescript\<newline>foo\<newline>```\<newline>visual.spec.ts:\<newline>```typescript\<newline>bar\<newline>```'')
               @ attempts (findall2 hash_pattern ''FILENAME: a.spec.ts\<newline>#### a.spec.ts\<newline>```typescript\<newline>foo\<newline>```\<newline>visual.spec.ts:\<newline>```typescript\<newline>bar\<newline>```'')
               @ attempts (findall2 markdown_pattern ''FILENAME: a.spec.ts\<newline>#### a.spec.ts\<newline>```typescript\<newline>foo\<newline>```\<newline>visual.spec.ts:\<newline>```typescript\<newline>bar\<newline>```'')
               @ (if saves env0 (attempts (findall2 markdown_pattern ''FILENAME: a.spec.ts\<newline>#### a.spec.ts\<newline>```typescript\<newline>foo\<newline>```\<newline>visual.spec.ts:\<newline>```typescript\<newline>bar\<newline>```'')) = []
                  then attempts (context_matches ''FILENAME: a.spec.ts\<newline>#### a.spec.ts\<newline>```typescript\<newline>foo\<newline>```\<newline>visual.spec.ts:\<newline>```typescript\<newline>bar\<newline>```'') else []))) < 4
          then attempts (content_matches ''FILENAME: a.spec.ts\<newline>#### a.spec.ts\<newline>```typescript\<newline>foo\<newline>```\<newline>visual.spec.ts:\<newline>```typescript\<newline>bar\<newline>```'') else [])))"
    by (simp add: t3_filename t3_hash t3_markdown t3_content attempts_def strip_x3 strip_foo
        strip_bar saves_Cons saves_Nil env0_saved_ok plain_ab plain_visual plain_test_1
        plain_test_2 disk_writes_def env0_disk_write)
  have pre: "map_of (rev (disk_writes env0 (attempts (findall2 hash_pattern ''FILENAME: a.spec.ts\<newline>#### a.spec.ts\<newline>```typescript\<newline>foo\<newline>```\<newline>visual.spec.ts:\<newline>```typescript\<newline>bar\<newline>```'')))) ''a.spec.ts''
      = Some ''foo''"
    unfolding d2 by simp
  have "files (env0\<lparr>files := [''a.spec.ts'' \<mapsto> ''foo'', ''visual.spec.ts'' \<mapsto> ''bar'',
                         ''test_1.spec.ts'' \<mapsto> ''foo'', ''test_2.spec.ts'' \<mapsto> ''bar''],
              written := [(''a.spec.ts'', ''#### a.spec.ts\<newline>```typescript\<newline>foo\<newline>```\<newline>visual.spec.ts:\<newline>```typescript\<newline>bar\<newline>```''), (''a.spec.ts'', ''foo''), (''visual.spec.ts'', ''bar''),
                  (''test_1.spec.ts'', ''foo''), (''test_2.spec.ts'', ''bar'')]\<rparr>) ''a.spec.ts''
      = Some ''foo''"
    by (rule parse_test_files_last_write_wins [OF t3_parse, unfolded Let_def, THEN conjunct2, THEN conjunct2, rule_format])
      (rule conjI [OF pre later])
  with t3_parse d1 d2 t2_parse show ?thesis by (simp only: simp_thms)
qed

lemma within_refl: "within s g g"
  by (simp add: within_def)

lemma within_trans:
  "within s1 g1 g2 \<Longrightarrow> within s g g1 \<Longrightarrow> set s1 \<subseteq> set s \<Longrightarrow> within s g g2"
proof -
  assume a: "within s1 g1 g2" and b: "within s g g1" and c: "set s1 \<subseteq> set s"
  show "within s g g2"
    unfolding within_def
  proof
    fix iv assume "iv \<in> set g2"
    with a have "iv \<in> set g1 \<or> set (snd iv) \<subseteq> set s1" by (simp add: within_def)
    then show "iv \<in> set g \<or> set (snd iv) \<subseteq> set s"
    proof
      assume "iv \<in> set g1"
      with b show ?thesis by (simp add: within_def)
    next
      assume "set (snd iv) \<subseteq> set s1"
      with c show ?thesis by (simp add: subset_trans)
    qed
  qed
qed

lemma ms_chars:
  "(s', g') \<in> set (ms r s g) \<Longrightarrow> set s' \<subseteq> set s \<and> within s g g'"
proof (induction r s g arbitrary: s' g' rule: ms.induct)
  case (1 c s g)
  then show ?case by (auto simp: within_refl split: list.splits if_splits)
next
  case (2 s g)
  then show ?case by (simp add: within_refl)
next
  case (3 a b s g)
  from "3.prems" obtain s1 g1 where
    m1: "(s1, g1) \<in> set (ms a s g)" and m2: "(s', g') \<in> set (ms b s1 g1)"
    by auto
  from "3.IH"(1) [OF m1] have a: "set s1 \<subseteq> set s" "within s g g1" by simp_all
  from "3.IH"(2) [OF m1 refl m2] have b: "set s' \<subseteq> set s1" "within s1 g1 g'" by simp_all
  show ?case using a(1) b(1) within_trans [OF b(2) a(2) a(1)] by (simp add: subset_trans)
next
  case (4 a b s g)
  from "4.prems" have "(s', g') \<in> set (ms a s g) \<or> (s', g') \<in> set (ms b s g)" by simp
  then show ?case
  proof
    assume "(s', g') \<in> set (ms a s g)"
    then show ?thesis by (rule "4.IH"(1))
  next
    assume "(s', g') \<in> set (ms b s g)"
    then show ?thesis by (rule "4.IH"(2))
  qed
next
  case (5 a s g)
  show ?case
  proof (cases "(s', g') = (s, g)")
    case True
    then show ?thesis by (simp add: within_refl)
  next
    case False
    from "5.prems" have "(s', g') \<in> set (concat (map (\<lambda>(s1, g1).
        if length s1 < length s then ms (Star a) s1 g1 else []) (ms a s g)) @ [(s, g)])"
      by (simp only: ms.simps(5) [of a s g])
    with False obtain s1 g1 where
      m1: "(s1, g1) \<in> set (ms a s g)" and len: "length s1 < length s"
      and m2: "(s', g') \<in> set (ms (Star a) s1 g1)"
      by (auto simp del: ms.simps split: if_splits)
    from "5.IH"(1) [OF m1] have a: "set s1 \<subseteq> set s" "within s g g1" by simp_all
    from "5.IH"(2) [OF m1 refl len m2] have b: "set s' \<subseteq> set s1" "within s1 g1 g'" by simp_all
    show ?thesis using a(1) b(1) within_trans [OF b(2) a(2) a(1)] by (simp add: subset_trans)
  qed
next
  case (6 a s g)
  show ?case
  proof (cases "(s', g') = (s, g)")
    case True
    then show ?thesis by (simp add: within_refl)
  next
    case False
    from "6.prems" have "(s', g') \<in> set ((s, g) # concat (map (\<lambda>(s1, g1).
        if length s1 < length s then ms (LazyStar a) s1 g1 else []) (ms a s g)))"
      by (simp only: ms.simps(6) [of a s g])
    with False obtain s1 g1 where
      m1: "(s1, g1) \<in> set (ms a s g)" and len: "length s1 < length s"
      and m2: "(s', g') \<in> set (ms (LazyStar a) s1 g1)"
      by (auto simp del: ms.simps split: if_splits)
    from "6.IH"(1) [OF m1] have a: "set s1 \<subseteq> set s" "within s g g1" by simp_all
    from "6.IH"(2) [OF m1 refl len m2] have b: "set s' \<subseteq> set s1" "within s1 g1 g'" by simp_all
    show ?thesis using a(1) b(1) within_trans [OF b(2) a(2) a(1)] by (simp add: subset_trans)
  qed
next
  case (7 i a s g)
  from "7.prems" obtain g1 where
    m1: "(s', g1) \<in> set (ms a s g)" and g': "g' = (i, take (length s - length s') s) # g1"
    by auto
  from "7.IH" [OF m1] have a: "set s' \<subseteq> set s" "within s g g1" by simp_all
  have "set (take (length s - length s') s) \<subseteq> set s" by (rule set_take_subset)
  then show ?case using a unfolding g' within_def by auto
next
  case (8 a s g)
  from "8.prems" obtain s1 where
    m: "(s1, g') \<in> set (ms a s g)" and s': "s' = s"
    by (cases "ms a s g") (auto split: prod.splits)
  note m
  from "8.IH" [OF this] show ?case using s' by simp
next
  case (9 s g)
  then show ?case by (auto simp: within_refl split: if_splits)
qed

lemma from_text_subset: "set n \<subseteq> set t \<Longrightarrow> from_text t n"
  by (auto simp: from_text_def)

lemma from_text_ascii: "list_all is_ascii n \<Longrightarrow> from_text t n"
  by (auto simp: from_text_def list_all_iff)

lemma from_text_append: "from_text t (a @ b) = (from_text t a \<and> from_text t b)"
  by (auto simp: from_text_def)

lemma can_print_from_text: "can_print e t \<Longrightarrow> from_text t n \<Longrightarrow> can_print e n"
  by (auto simp: can_print_def from_text_def list_all_iff)

lemma match_at_chars:
  assumes "match_at r s = Some (s', g')"
  shows "set s' \<subseteq> set s \<and> (\<forall>iv \<in> set g'. set (snd iv) \<subseteq> set s)"
proof -
  from assms have "(s', g') \<in> set (ms r s [])"
    by (auto simp: match_at_def split: list.splits)
  from ms_chars [OF this] show ?thesis by (simp add: within_def)
qed

lemma findall_chars:
  "g \<in> set (findall r s) \<Longrightarrow> \<forall>iv \<in> set g. set (snd iv) \<subseteq> set s"
proof (induction r s arbitrary: g rule: findall.induct)
  case (1 r s)
  show ?case
  proof (cases "match_at r s")
    case None
    show ?thesis
    proof (cases s)
      case Nil
      with None "1.prems" show ?thesis by (simp add: findall.simps [of r "[]"])
    next
      case (Cons x xs)
      with None "1.prems" have "g \<in> set (findall r xs)"
        by (simp add: findall.simps [of r "x # xs"] del: findall.simps)
      from "1.IH"(1) [OF None Cons this] show ?thesis using Cons by auto
    qed
  next
    case (Some m)
    obtain s' g' where m: "m = (s', g')" by (cases m)
    note mc = match_at_chars [OF Some [unfolded m]]
    show ?thesis
    proof (cases "length s' < length s")
      case True
      with Some m "1.prems" have "g = g' \<or> g \<in> set (findall r s')"
        by (simp add: findall.simps [of r s] del: findall.simps)
      then show ?thesis
      proof
        assume "g = g'"
        with mc show ?thesis by simp
      next
        assume "g \<in> set (findall r s')"
        from "1.IH"(2) [OF Some m [symmetric] True this] mc show ?thesis by blast
      qed
    next
      case False
      show ?thesis
      proof (cases s)
        case Nil
        with Some m False "1.prems" have "g = g'"
          by (simp add: findall.simps [of r "[]"] del: findall.simps)
        with mc show ?thesis by simp
      next
        case (Cons x xs)
        with Some m False "1.prems" have "g = g' \<or> g \<in> set (findall r xs)"
          by (simp add: findall.simps [of r "x # xs"] del: findall.simps)
        then show ?thesis
        proof
          assume "g = g'"
          with mc show ?thesis by simp
        next
          assume "g \<in> set (findall r xs)"
          from "1.IH"(3) [OF Some m [symmetric] False Cons this] show ?thesis using Cons by auto
        qed
      qed
    qed
  qed
qed

lemma group_chars:
  assumes "\<forall>iv \<in> set g. set (snd iv) \<subseteq> set s"
  shows "set (group g i) \<subseteq> set s"
proof (cases "map_of g i")
  case None
  then show ?thesis by (simp add: group_def)
next
  case (Some v)
  then have "(i, v) \<in> set g" by (rule map_of_SomeD)
  with assms have "set v \<subseteq> set s" by fastforce
  with Some show ?thesis by (simp add: group_def)
qed

lemma findall2_names:
  assumes "(n, c) \<in> set (findall2 r s)"
  shows "set n \<subseteq> set s"
proof -
  from assms obtain g where g: "g \<in> set (findall r s)" and n: "n = group g 1"
    unfolding findall2_def by (auto simp del: findall.simps)
  from group_chars [OF findall_chars [OF g]] n show ?thesis by simp
qed

lemma search_chars:
  "search r s = Some g \<Longrightarrow> \<forall>iv \<in> set g. set (snd iv) \<subseteq> set s"
proof (induction s)
  case Nil
  then obtain s' where "match_at r [] = Some (s', g)" by (cases "match_at r []") auto
  from match_at_chars [OF this] show ?case by simp
next
  case (Cons c cs)
  show ?case
  proof (cases "match_at r (c # cs)")
    case None
    with Cons.prems have "search r cs = Some g" by simp
    from Cons.IH [OF this] show ?thesis by auto
  next
    case (Some m)
    obtain s' g' where m: "m = (s', g')" by (cases m)
    with Some Cons.prems have "g = g'" by simp
    with match_at_chars [OF Some [unfolded m]] show ?thesis by simp
  qed
qed

lemma split_on_chars: "l \<in> set (split_on c s) \<Longrightarrow> set l \<subseteq> set s"
proof (induction s arbitrary: l)
  case Nil
  then show ?case by simp
next
  case (Cons x xs)
  show ?case
  proof (cases "x = c")
    case True
    with Cons.prems have "l = [] \<or> l \<in> set (split_on c xs)" by simp
    with Cons.IH show ?thesis by auto
  next
    case False
    obtain h rest where sp: "split_on c xs = h # rest"
      using split_on_not_Nil [of c xs] by (cases "split_on c xs") auto
    with False Cons.prems have "l = x # h \<or> l \<in> set rest" by simp
    moreover have "set h \<subseteq> set xs" using Cons.IH [of h] sp by simp
    moreover have "l \<in> set rest \<Longrightarrow> set l \<subseteq> set xs" using Cons.IH [of l] sp by simp
    ultimately show ?thesis by auto
  qed
qed

lemma slice_to_chars: "set (slice_to s i) \<subseteq> set s"
  by (auto simp: slice_to_def split: option.splits dest: in_set_takeD in_set_butlastD)

lemma name_in_lines_chars:
  "name_in_lines ls = Some n \<Longrightarrow> \<exists>l \<in> set ls. set n \<subseteq> set l"
proof (induction ls)
  case Nil
  then show ?case by simp
next
  case (Cons l ls)
  show ?case
  proof (cases "py_in ''.spec.ts'' l \<and> search name_pattern l \<noteq> None")
    case True
    then obtain g where g: "search name_pattern l = Some g" by auto
    with True Cons.prems have "n = group g 1" by simp
    with group_chars [OF search_chars [OF g]] show ?thesis by auto
  next
    case False
    with Cons.prems have "name_in_lines ls = Some n" by (auto split: option.splits if_splits)
    from Cons.IH [OF this] show ?thesis by auto
  qed
qed

lemma digit_ascii: "d < 10 \<Longrightarrow> is_ascii (digit_char d)"
  by (simp add: is_ascii_def digit_char_def)

lemma str_nat_ascii: "list_all is_ascii (str_nat n)"
proof (induction n rule: str_nat.induct)
  case (1 n)
  show ?case
  proof (cases "n < 10")
    case True
    then show ?thesis by (simp add: str_nat.simps [of n] digit_ascii del: str_nat.simps)
  next
    case False
    with "1.IH" show ?thesis
      by (simp add: str_nat.simps [of n] digit_ascii del: str_nat.simps)
  qed
qed

lemma test_name_ascii: "list_all is_ascii (''test_'' @ str_nat k @ ''.spec.ts'')"
proof -
  have "list_all is_ascii ''test_''" "list_all is_ascii ''.spec.ts''" by code_simp+
  then show ?thesis by (simp add: str_nat_ascii)
qed

lemma block_filename_chars: "from_text t (block_filename t i b)"
proof (cases "name_in_lines (rev (last_lines 10 (split_on nl (slice_to t (find_str t b)))))")
  case None
  then have "block_filename t i b = ''test_'' @ str_nat (i + 1) @ ''.spec.ts''"
    by (simp add: block_filename_def Let_def)
  then show ?thesis by (simp only: from_text_ascii [OF test_name_ascii])
next
  case (Some n)
  from name_in_lines_chars [OF Some] obtain l where
    l: "l \<in> set (last_lines 10 (split_on nl (slice_to t (find_str t b))))" and n: "set n \<subseteq> set l"
    by auto
  from l have "l \<in> set (split_on nl (slice_to t (find_str t b)))"
    by (auto simp: last_lines_def dest: in_set_dropD)
  from split_on_chars [OF this] slice_to_chars [of t "find_str t b"] n
  have sub: "set n \<subseteq> set t" by blast
  show ?thesis
  proof (cases "n = []")
    case True
    with Some have "block_filename t i b = ''test_'' @ str_nat (i + 1) @ ''.spec.ts''"
      by (simp add: block_filename_def Let_def)
    then show ?thesis by (simp only: from_text_ascii [OF test_name_ascii])
  next
    case False
    with Some have "block_filename t i b = n"
      by (simp add: block_filename_def Let_def)
    then show ?thesis using sub by (simp only: from_text_subset)
  qed
qed

lemma best_match_names:
  "best_match cl xs (b, sc) = Some n \<Longrightarrow> b = Some n \<or> n \<in> fst ` set xs"
proof (induction xs arbitrary: b sc)
  case Nil
  then show ?case by simp
next
  case (Cons x xs)
  obtain f ind where x: "x = (f, ind)" by (cases x)
  show ?case
  proof (cases "score cl ind > sc")
    case True
    with Cons.prems x have "best_match cl xs (Some f, score cl ind) = Some n" by simp
    from Cons.IH [OF this] show ?thesis using x by auto
  next
    case False
    with Cons.prems x have "best_match cl xs (b, sc) = Some n" by simp
    from Cons.IH [OF this] show ?thesis by auto
  qed
qed

lemma expected_ascii: "list_all (\<lambda>n. list_all is_ascii n) (map fst expected_files)"
  by code_simp

lemma mapped_filename_ascii: "list_all is_ascii (mapped_filename i b)"
proof (cases "best_match (lower b) expected_files (None, 0)")
  case None
  then have "mapped_filename i b = ''test_'' @ str_nat (i + 1) @ ''.spec.ts''"
    by (simp add: mapped_filename_def)
  then show ?thesis by (simp only: test_name_ascii)
next
  case (Some n)
  from best_match_names [OF Some] have "n \<in> fst ` set expected_files" by simp
  with expected_ascii have "list_all is_ascii n" by (auto simp: list_all_iff)
  with Some show ?thesis by (simp add: mapped_filename_def)
qed

lemma context_names: "(n, c) \<in> set (context_matches t) \<Longrightarrow> from_text t n"
  by (auto simp: context_matches_def block_filename_chars)

lemma content_names: "(n, c) \<in> set (content_matches t) \<Longrightarrow> from_text t n"
  by (auto simp: content_matches_def from_text_ascii [OF mapped_filename_ascii])

lemma attempts_names: "(n, c) \<in> set (attempts cands) \<Longrightarrow> \<exists>c0. (n, c0) \<in> set cands"
  by (auto simp: attempts_def)

lemma cascade_names: "(n, c) \<in> set (cascade_run e t) \<Longrightarrow> from_text t n"
  by (auto simp: cascade_run_def Let_def split: if_splits
      dest!: attempts_names dest: findall2_names [THEN from_text_subset] context_names
        content_names)

lemma handled_printable:
  "test_output_dir e = Some d \<Longrightarrow> can_print e d \<Longrightarrow> can_print e n \<Longrightarrow> handled e (n, c)"
  by (simp add: handled_def can_print_append split: option.splits)

text \<open>
  C2 (amended): when the output directory is set up and can be created, and the standard
  output can print the messages, the name of the directory and every character of the text,
  \<open>_parse_test_files\<close> returns a list of file names for every such text, whether or not
  any file can be opened or written.
\<close>

theorem parse_test_files_returns:
  assumes "test_output_dir e = Some d" and "can_mkdir e" and "can_print e (d @ t)"
  shows "\<exists>names e'. parse_test_files e t = Inr (names, e')"
proof -
  from assms(3) have d: "can_print e d" and t: "can_print e t"
    by (simp_all add: can_print_append)
  have "handled e x" if "x \<in> set (cascade_run e t)" for x
  proof -
    obtain n c where x: "x = (n, c)" by (cases x)
    from that cascade_names [of n c e t] have "from_text t n" by (simp add: x)
    from can_print_from_text [OF t this] show ?thesis
      unfolding x by (rule handled_printable [OF assms(1) d])
  qed
  then have "list_all (handled e) (cascade_run e t)" by (simp add: list_all_iff)
  then show ?thesis
    using can_print_take [OF t, of 500] can_print_take [OF t, of 1000] assms
    by (simp add: parse_test_files_eq makedirs_ok)
qed

lemma env_strict_fields:
  "stdout_fixed env_strict" "test_output_dir env_strict = Some ''run_files/run_1/tests''"
  "can_mkdir env_strict" "opens env_strict = plain_name" "write_fails env_strict c = None"
  "stdout_char env_strict = (\<lambda>c. c \<noteq> CHR 0xFF)"
  by (simp_all add: env_strict_def env0_def)

text \<open>
  C2 (as stated): \<open>_parse_test_files\<close> never raises, whatever the text. Its second
  statement prints the first 500 characters of the text outside any handler: with the
  output directory set up and every file writable, a text with a character that the
  standard output cannot encode raises \<open>UnicodeEncodeError\<close>. And in a generator whose
  run directories were never set up, creating the directory raises \<open>TypeError\<close> on every
  text.
\<close>

theorem parse_test_files_raises:
  "parse_test_files env_strict [CHR 0xFF] = Inl UnicodeEncodeError
   \<and> test_output_dir env_strict = Some ''run_files/run_1/tests'' \<and> can_mkdir env_strict
   \<and> opens env_strict = plain_name \<and> write_fails env_strict = (\<lambda>_. None)
   \<and> can_print env_strict ''run_files/run_1/tests''
   \<and> parse_test_files env_unset [] = Inl TypeError"
proof -
  have "\<not> is_ascii (CHR 0xFF)" by code_simp
  then have "\<not> can_print env_strict (take 500 [CHR 0xFF])"
    by (simp add: can_print_def env_strict_fields)
  then have a: "parse_test_files env_strict [CHR 0xFF] = Inl UnicodeEncodeError"
    by (simp add: parse_test_files_eq)
  have "list_all is_ascii ''run_files/run_1/tests''" by code_simp
  then have b: "can_print env_strict ''run_files/run_1/tests''"
    by (rule can_print_ascii [OF env_strict_fields(1)])
  have c: "parse_test_files env_unset [] = Inl TypeError"
    by (simp add: parse_test_files_eq can_print_def makedirs_def env_unset_def env0_def)
  have d: "write_fails env_strict = (\<lambda>_. None)"
    by (simp add: env_strict_def env0_def)
  show ?thesis using a b c d by (simp add: env_strict_fields)
qed

lemma env_readonly_fields:
  "stdout_fixed env_readonly" "test_output_dir env_readonly = Some ''run_files/run_1/tests''"
  "can_mkdir env_readonly" "opens env_readonly = (\<lambda>_. None)"
  "stdout_char env_readonly = (\<lambda>_. True)"
  by (simp_all add: env_readonly_def env0_def)

lemma empty_run: "cascade_run e [] = []"
proof -
  have "findall2 filename_pattern [] = []" "findall2 hash_pattern [] = []"
    "findall2 markdown_pattern [] = []" "context_matches [] = []" "content_matches [] = []"
    by code_simp+
  then show ?thesis by (simp add: cascade_run_def attempts_def saves_Nil)
qed

text \<open>The amended C2 on a text with an unclosed fence in a run where no file opens, and
  on the empty text, for which the list is empty.\<close>

theorem parse_test_files_returns_witness:
  "test_output_dir env_readonly = Some ''run_files/run_1/tests'' \<and> can_mkdir env_readonly
   \<and> can_print env_readonly (''run_files/run_1/tests'' @ ''```typescript\<newline>test(`` {{ }'')
   \<and> (\<exists>names e'. parse_test_files env_readonly ''```typescript\<newline>test(`` {{ }'' = Inr (names, e'))
   \<and> (\<exists>names e'. parse_test_files env0 [] = Inr (names, e'))
   \<and> parse_test_files env0 [] = Inr ([], env0)"
proof -
  have a: "can_print env_readonly s" for s
    by (simp add: can_print_def env_readonly_fields list_all_iff)
  have b: "parse_test_files env0 [] = Inr ([], env0)"
    by (simp add: env0_parse empty_run saves_Nil after_saves_Nil env0_can_print)
  show ?thesis
    using parse_test_files_returns [of env_readonly "''run_files/run_1/tests''" "''```typescript\<newline>test(`` {{ }''", OF _ _ a]
      parse_test_files_returns [of env0 "''run_files/run_1/tests''" "[]", OF _ _ env0_can_print]
      a b
    by (simp add: env_readonly_fields env0_fields)
qed

end
